theory Spec2Isabelle
  imports Main "HOL-Library.Word" "HOL-Library.Signed_Division"
begin

unbundle bit_operations_syntax

section \<open>Machine integers of the MSP430 target\<close>

text \<open>
  The library is written for the MSP430 (it includes \<^verbatim>\<open>msp430.h\<close>): \<^verbatim>\<open>int\<close> and
  \<^verbatim>\<open>unsigned int\<close> are 16 bits wide, \<^verbatim>\<open>long\<close> and \<^verbatim>\<open>unsigned long\<close> are 32 bits wide,
  \<^verbatim>\<open>unsigned char\<close> is 8 bits wide.  A C integer is a word of its width; a signed one is
  read with \<open>sint\<close> and compared with \<open><s\<close>, an unsigned one is read with \<open>unat\<close> and
  compared with \<open><\<close>.  A conversion to a wider type is \<open>scast\<close> from a signed source and
  \<open>ucast\<close> from an unsigned one; a conversion to a narrower type is \<open>ucast\<close>.

  C's \<^verbatim>\<open>/\<close> and \<^verbatim>\<open>%\<close> on signed operands truncate towards zero.
\<close>

definition c_sdiv :: "'a::len word \<Rightarrow> 'a word \<Rightarrow> 'a word" where
  "c_sdiv a b = word_of_int (sint a sdiv sint b)"

definition c_smod :: "'a::len word \<Rightarrow> 'a word \<Rightarrow> 'a word" where
  "c_smod a b = word_of_int (sint a smod sint b)"

datatype fault = OutOfBounds | Uninitialised

section \<open>rtckit.h\<close>

definition RTC_GENERAL_ERROR :: "16 word" where "RTC_GENERAL_ERROR = 0x8000"
definition RTC_TICK :: "16 word" where "RTC_TICK = 0x0001"
definition RTC_TICK_DOES_WAKEUP :: "16 word" where "RTC_TICK_DOES_WAKEUP = 0x0100"
definition RTCALARM_0_TRIGGERED :: "16 word" where "RTCALARM_0_TRIGGERED = 0x0002"
definition RTCALARM_1_TRIGGERED :: "16 word" where "RTCALARM_1_TRIGGERED = 0x0004"

definition TOTAL_SECONDS_PER_LEAP_CYCLE :: "32 word" where
  "TOTAL_SECONDS_PER_LEAP_CYCLE = (86400 * 365) * 3 + (86400 * 366)"

definition EPOCH_AFTER_FIRST_LEAPYEAR :: "32 word" where
  "EPOCH_AFTER_FIRST_LEAPYEAR = (86400 * 365) * 2 + (86400 * 366)"

record rtcDayInfo =
  day_shortName :: string
  day_longName :: string

record rtcMonthInfo =
  days :: "8 word"
  shortName :: string
  longName :: string

text \<open>\<^verbatim>\<open>struct tm\<close> of the C library: nine \<^verbatim>\<open>int\<close> fields.\<close>

record tm =
  tm_sec :: "16 word"
  tm_min :: "16 word"
  tm_hour :: "16 word"
  tm_mday :: "16 word"
  tm_mon :: "16 word"
  tm_year :: "16 word"
  tm_wday :: "16 word"
  tm_yday :: "16 word"
  tm_isdst :: "16 word"

section \<open>rtckit.c: data\<close>

definition monthInfo :: "rtcMonthInfo list" where
  "monthInfo =
    [\<lparr>days = 31, shortName = ''Jan'', longName = ''January''\<rparr>,
     \<lparr>days = 28, shortName = ''Feb'', longName = ''February''\<rparr>,
     \<lparr>days = 31, shortName = ''Mar'', longName = ''March''\<rparr>,
     \<lparr>days = 30, shortName = ''Apr'', longName = ''April''\<rparr>,
     \<lparr>days = 31, shortName = ''May'', longName = ''May''\<rparr>,
     \<lparr>days = 30, shortName = ''Jun'', longName = ''June''\<rparr>,
     \<lparr>days = 31, shortName = ''Jul'', longName = ''July''\<rparr>,
     \<lparr>days = 31, shortName = ''Aug'', longName = ''August''\<rparr>,
     \<lparr>days = 30, shortName = ''Sep'', longName = ''September''\<rparr>,
     \<lparr>days = 31, shortName = ''Oct'', longName = ''October''\<rparr>,
     \<lparr>days = 30, shortName = ''Nov'', longName = ''November''\<rparr>,
     \<lparr>days = 31, shortName = ''Dec'', longName = ''December''\<rparr>]"

definition dayInfo :: "rtcDayInfo list" where
  "dayInfo =
    [\<lparr>day_shortName = ''Sun'', day_longName = ''Sunday''\<rparr>,
     \<lparr>day_shortName = ''Mon'', day_longName = ''Monday''\<rparr>,
     \<lparr>day_shortName = ''Tue'', day_longName = ''Tuesday''\<rparr>,
     \<lparr>day_shortName = ''Wed'', day_longName = ''Wednesday''\<rparr>,
     \<lparr>day_shortName = ''Thu'', day_longName = ''Thursday''\<rparr>,
     \<lparr>day_shortName = ''Fri'', day_longName = ''Friday''\<rparr>,
     \<lparr>day_shortName = ''Sat'', day_longName = ''Saturday''\<rparr>]"

text \<open>
  \<^verbatim>\<open>monthInfo[k].days\<close>: the table has twelve entries, and a read at any other index is
  outside the array.
\<close>

definition monthInfo_days :: "int \<Rightarrow> fault + 8 word" where
  "monthInfo_days k =
    (if 0 \<le> k \<and> k < 12 then Inr (days (monthInfo ! nat k)) else Inl OutOfBounds)"

text \<open>
  The variables of the library: the live epoch, the two alarms with their re-arm
  increments, and the status word.  \<open>saved_SR\<close> is the copy of the status register that
  the interrupt entry pushed and that the return from the interrupt restores; it is what
  \<^verbatim>\<open>__bic_SR_register_on_exit\<close> changes.
\<close>

record rtc_vars =
  rtcepoch :: "32 word"
  rtcalarm0 :: "32 word"
  rtcalarm0_incr :: "32 word"
  rtcalarm1 :: "32 word"
  rtcalarm1_incr :: "32 word"
  rtc_status :: "16 word"
  saved_SR :: "16 word"

section \<open>rtckit.c: the interrupt service routine\<close>

text \<open>
  \<^verbatim>\<open>RTCIV_RTCIF\<close> and \<^verbatim>\<open>LPM4_bits\<close> come from the device header, which is not part of the
  library: they are the first two parameters.  The third is the value read from the
  interrupt vector register \<^verbatim>\<open>RTCIV\<close>.
\<close>

definition RTC_ISR :: "16 word \<Rightarrow> 16 word \<Rightarrow> 16 word \<Rightarrow> rtc_vars \<Rightarrow> rtc_vars" where
  "RTC_ISR RTCIV_RTCIF LPM4_bits RTCIV s =
    (if RTCIV AND RTCIV_RTCIF \<noteq> 0 then
       let s = s\<lparr>rtc_status := rtc_status s OR RTC_TICK\<rparr>;
           s = s\<lparr>rtcepoch := rtcepoch s + 1\<rparr>;
           s = (if rtcalarm0 s > 0 \<and> rtcepoch s = rtcalarm0 s then
                  let s = s\<lparr>rtc_status := rtc_status s OR RTCALARM_0_TRIGGERED\<rparr>
                  in if rtcalarm0_incr s > 0
                     then s\<lparr>rtcalarm0 := rtcalarm0 s + rtcalarm0_incr s\<rparr> else s
                else s);
           s = (if rtcalarm1 s > 0 \<and> rtcepoch s = rtcalarm1 s then
                  let s = s\<lparr>rtc_status := rtc_status s OR RTCALARM_1_TRIGGERED\<rparr>
                  in if rtcalarm1_incr s > 0
                     then s\<lparr>rtcalarm1 := rtcalarm1 s + rtcalarm1_incr s\<rparr> else s
                else s)
       in s\<lparr>saved_SR := saved_SR s AND NOT LPM4_bits\<rparr>
     else s)"

text \<open>\<open>n\<close> interrupts in a row, each of them reading \<open>RTCIV\<close> from the register.\<close>

primrec ticks :: "16 word \<Rightarrow> 16 word \<Rightarrow> 16 word \<Rightarrow> nat \<Rightarrow> rtc_vars \<Rightarrow> rtc_vars" where
  "ticks RTCIV_RTCIF LPM4_bits RTCIV 0 s = s"
| "ticks RTCIV_RTCIF LPM4_bits RTCIV (Suc n) s =
     RTC_ISR RTCIV_RTCIF LPM4_bits RTCIV (ticks RTCIV_RTCIF LPM4_bits RTCIV n s)"

section \<open>rtckit.c: epoch to calendar\<close>

record tm_leapyear =
  startOfCycle :: "32 word"
  remains :: "32 word"
  years :: "16 word"

text \<open>The loop of \<^verbatim>\<open>rtc_calculate_last_leapyear\<close> over \<^verbatim>\<open>epoch\<close>, \<^verbatim>\<open>accum\<close>, \<^verbatim>\<open>years\<close>.\<close>

function last_leapyear_loop ::
  "32 word \<Rightarrow> 32 word \<Rightarrow> 16 word \<Rightarrow> 32 word \<times> 32 word \<times> 16 word" where
  "last_leapyear_loop epoch accum years' =
    (if epoch \<ge> TOTAL_SECONDS_PER_LEAP_CYCLE then
       last_leapyear_loop (epoch - TOTAL_SECONDS_PER_LEAP_CYCLE)
         (accum + TOTAL_SECONDS_PER_LEAP_CYCLE) (years' + 4)
     else (epoch, accum, years'))"
  by pat_completeness auto
termination
proof (relation "measure (\<lambda>(epoch, accum, years'). unat epoch)")
  show "wf (measure (\<lambda>(epoch, accum, years'). unat epoch))" by simp
next
  fix epoch accum :: "32 word" and years' :: "16 word"
  assume a: "TOTAL_SECONDS_PER_LEAP_CYCLE \<le> epoch"
  have "unat (epoch - TOTAL_SECONDS_PER_LEAP_CYCLE) = unat epoch - unat TOTAL_SECONDS_PER_LEAP_CYCLE"
    using a by (rule unat_sub)
  moreover have "unat TOTAL_SECONDS_PER_LEAP_CYCLE \<le> unat epoch"
    using a by (simp add: word_le_nat_alt)
  moreover have "0 < unat TOTAL_SECONDS_PER_LEAP_CYCLE"
    by (simp add: TOTAL_SECONDS_PER_LEAP_CYCLE_def)
  ultimately show "((epoch - TOTAL_SECONDS_PER_LEAP_CYCLE,
      accum + TOTAL_SECONDS_PER_LEAP_CYCLE, years' + 4), epoch, accum, years')
    \<in> measure (\<lambda>(epoch, accum, years'). unat epoch)"
    by simp
qed

text \<open>
  The first argument says whether \<^verbatim>\<open>buf\<close> is a non-null pointer.  The second component of
  the result is what the call stored through \<^verbatim>\<open>buf\<close>, \<open>None\<close> when it stored nothing.
\<close>

definition rtc_calculate_last_leapyear ::
  "bool \<Rightarrow> 32 word \<Rightarrow> 32 word \<times> tm_leapyear option" where
  "rtc_calculate_last_leapyear buf_not_NULL epoch =
    (if epoch < EPOCH_AFTER_FIRST_LEAPYEAR then (0, None)
     else
       (case last_leapyear_loop (epoch - EPOCH_AFTER_FIRST_LEAPYEAR)
               (0 + EPOCH_AFTER_FIRST_LEAPYEAR) (0 + 3) of
          (epoch, accum, years') \<Rightarrow>
            (accum,
             if buf_not_NULL
             then Some \<lparr>startOfCycle = accum, remains = epoch, years = years'\<rparr>
             else None)))"

text \<open>
  The month walk of \<^verbatim>\<open>rtc_interpret\<close> over \<^verbatim>\<open>i\<close>, \<^verbatim>\<open>j\<close> (both \<^verbatim>\<open>long\<close>) and
  \<^verbatim>\<open>timebuf.tm_mon\<close>.
\<close>

function month_loop ::
  "16 word \<Rightarrow> 32 word \<Rightarrow> 32 word \<Rightarrow> 16 word \<Rightarrow> fault + (32 word \<times> 32 word \<times> 16 word)" where
  "month_loop days_february i j mon =
    (if -1 <s i then
       (if mon = 1 then
          month_loop days_february (i - ucast days_february) (j + ucast days_february) (mon + 1)
        else
          (case monthInfo_days (sint mon) of
             Inl f \<Rightarrow> Inl f
           | Inr d \<Rightarrow> month_loop days_february (i - ucast d) (j + ucast d) (mon + 1)))
     else Inr (i, j, mon))"
  by pat_completeness auto
termination
proof (relation "measure (\<lambda>(days_february, i, j, mon). 12 - nat (sint mon))")
  show "wf (measure (\<lambda>(days_february, i, j, mon). 12 - nat (sint mon)))" by simp
next
  fix days_february mon :: "16 word" and i j :: "32 word"
  assume "mon = 1"
  then show "((days_february, i - ucast days_february, j + ucast days_february, mon + 1),
      days_february, i, j, mon) \<in> measure (\<lambda>(days_february, i, j, mon). 12 - nat (sint mon))"
    by simp
next
  fix days_february mon :: "16 word" and i j :: "32 word" and d :: "8 word"
  assume "monthInfo_days (sint mon) = Inr d"
  then have r: "0 \<le> sint mon" "sint mon < 12"
    by (simp_all add: monthInfo_days_def split: if_splits)
  have "sint (mon + 1) = signed_take_bit 15 (sint mon + 1)"
    by (simp add: sint_word_add)
  also have "\<dots> = sint mon + 1"
    using r by (intro signed_take_bit_int_eq_self) simp_all
  finally show "((days_february, i - ucast d, j + ucast d, mon + 1),
      days_february, i, j, mon) \<in> measure (\<lambda>(days_february, i, j, mon). 12 - nat (sint mon))"
    using r by simp
qed

text \<open>
  \<^verbatim>\<open>rtc_interpret\<close> returns either \<^verbatim>\<open>NULL\<close> or the address of its static buffer
  \<^verbatim>\<open>timebuf\<close>.  The buffer is passed in and returned with the pointer.
\<close>

datatype tm_ptr = NULL | TIMEBUF

definition rtc_interpret :: "32 word \<Rightarrow> tm \<Rightarrow> fault + (tm_ptr \<times> tm)" where
  "rtc_interpret epoch timebuf =
    (case rtc_calculate_last_leapyear True epoch of
       (ret, leaps_written) \<Rightarrow>
       if ret = 0 then Inr (NULL, timebuf)
       else
         (case leaps_written of
            None \<Rightarrow> Inl Uninitialised
          | Some leaps \<Rightarrow>
            let days_this_year = (365 :: 16 word);
                days_february = (28 :: 16 word);
                remains_years = remains leaps div (365 * 86400);
                days_february = (if remains_years > 2 then 29 else days_february);
                days_this_year = (if remains_years > 2 then 366 else days_this_year);
                remains_years = (if remains_years > 3 then remains_years - 1 else remains_years);
                timebuf = timebuf\<lparr>tm_year := ucast (ucast (years leaps) + remains_years + 1970)\<rparr>;
                remains_this_year =
                  (if days_this_year = 366
                   then remains leaps - (remains_years * 86400 * 365)
                   else remains leaps - ((remains_years - 1) * 86400 * 365)
                          - (86400 * ucast days_this_year));
                timebuf = timebuf\<lparr>tm_yday := ucast (remains_this_year div 86400)\<rparr>;
                timebuf = timebuf\<lparr>tm_mon := 0\<rparr>
            in
              (case month_loop days_february (scast (tm_yday timebuf)) 0 (tm_mon timebuf) of
                 Inl f \<Rightarrow> Inl f
               | Inr (i, j, mon) \<Rightarrow>
                 let timebuf = timebuf\<lparr>tm_mon := mon - 1\<rparr> in
                 (case (if tm_mon timebuf = 1 then Inr (j - ucast days_february)
                        else (case monthInfo_days (sint (tm_mon timebuf)) of
                                Inl f \<Rightarrow> Inl f
                              | Inr d \<Rightarrow> Inr (j - ucast d))) of
                    Inl f \<Rightarrow> Inl f
                  | Inr j \<Rightarrow>
                    let timebuf = timebuf\<lparr>tm_mday :=
                          ucast ((remains_this_year - (j * 86400)) div 86400 + 1)\<rparr>;
                        i = remains_this_year - scast (tm_yday timebuf) * 86400;
                        timebuf = timebuf\<lparr>tm_hour := ucast (c_sdiv i 3600)\<rparr>;
                        j = c_smod i 3600;
                        timebuf = timebuf\<lparr>tm_min := ucast (c_sdiv j 60)\<rparr>;
                        timebuf = timebuf\<lparr>tm_sec := ucast (c_smod j 60)\<rparr>;
                        weeks_since_epoch = epoch div (7 * 86400);
                        timebuf = timebuf\<lparr>tm_wday :=
                          ucast ((((epoch div 86400) - (weeks_since_epoch * 7)) + 4) mod 7)\<rparr>
                    in Inr (TIMEBUF, timebuf)))))"

section \<open>rtckit.c: calendar to epoch\<close>

text \<open>The month loop of \<^verbatim>\<open>rtc_calculate_yday\<close> over \<^verbatim>\<open>month\<close> and \<^verbatim>\<open>yday\<close>.\<close>

function yday_loop ::
  "16 word \<Rightarrow> 16 word \<Rightarrow> 16 word \<Rightarrow> 16 word \<Rightarrow> fault + (16 word \<times> 16 word)" where
  "yday_loop mon is_leap month yday =
    (if month < mon then
       (if month = 1 \<and> is_leap \<noteq> 0 then yday_loop mon is_leap (month + 1) (yday + 29)
        else
          (case monthInfo_days (uint month) of
             Inl f \<Rightarrow> Inl f
           | Inr d \<Rightarrow> yday_loop mon is_leap (month + 1) (yday + ucast d)))
     else Inr (month, yday))"
  by pat_completeness auto
termination
proof (relation "measure (\<lambda>(mon, is_leap, month, yday). unat mon - unat month)")
  show "wf (measure (\<lambda>(mon, is_leap, month, yday). unat mon - unat month))" by simp
next
  fix mon is_leap month yday :: "16 word"
  assume a: "month < mon"
  then have "unat month < unat mon" by (simp add: word_less_nat_alt)
  moreover have "unat mon < 2 ^ 16"
    using unsigned_less [of mon, where ?'a = nat] by simp
  ultimately have "unat month + unat (1 :: 16 word) < 2 ^ LENGTH(16)" by simp
  then have "unat (month + 1) = unat month + unat (1 :: 16 word)"
    by (simp only: unat_add_lem)
  with \<open>unat month < unat mon\<close>
  have "unat mon - unat (month + 1) < unat mon - unat month" by simp
  then show "((mon, is_leap, month + 1, yday + 29), mon, is_leap, month, yday)
      \<in> measure (\<lambda>(mon, is_leap, month, yday). unat mon - unat month)"
    by simp
  fix d :: "8 word"
  from \<open>unat mon - unat (month + 1) < unat mon - unat month\<close>
  show "((mon, is_leap, month + 1, yday + ucast d), mon, is_leap, month, yday)
      \<in> measure (\<lambda>(mon, is_leap, month, yday). unat mon - unat month)"
    by simp
qed

definition rtc_calculate_yday :: "tm \<Rightarrow> 32 word \<Rightarrow> 16 word \<Rightarrow> fault + 16 word" where
  "rtc_calculate_yday timebuf latest_epoch is_leap =
    (case yday_loop (tm_mon timebuf) is_leap 0 0 of
       Inl f \<Rightarrow> Inl f
     | Inr (month, yday) \<Rightarrow>
         Inr (if 0 <s tm_mday timebuf then yday + (tm_mday timebuf - 1) else yday))"

text \<open>The two year loops of \<^verbatim>\<open>rtc_epoch\<close> over \<^verbatim>\<open>epoch\<close> and \<^verbatim>\<open>latest_year\<close>.\<close>

function epoch_cycle_loop :: "16 word \<Rightarrow> 32 word \<Rightarrow> 16 word \<Rightarrow> 32 word \<times> 16 word" where
  "epoch_cycle_loop year epoch latest_year =
    (if (year - latest_year) \<ge> 4 then
       epoch_cycle_loop year (epoch + TOTAL_SECONDS_PER_LEAP_CYCLE) (latest_year + 4)
     else (epoch, latest_year))"
  by pat_completeness auto
termination
proof (relation "measure (\<lambda>(year, epoch, latest_year). unat (year - latest_year))")
  show "wf (measure (\<lambda>(year, epoch, latest_year). unat (year - latest_year)))" by simp
next
  fix year latest_year :: "16 word" and epoch :: "32 word"
  assume a: "4 \<le> year - latest_year"
  have "unat ((year - latest_year) - 4) = unat (year - latest_year) - unat (4 :: 16 word)"
    using a by (rule unat_sub)
  moreover have "4 \<le> unat (year - latest_year)"
    using a by (simp add: word_le_nat_alt)
  ultimately have "unat (year - (latest_year + 4)) < unat (year - latest_year)"
    by (simp add: diff_diff_eq [symmetric])
  then show "((year, epoch + TOTAL_SECONDS_PER_LEAP_CYCLE, latest_year + 4),
      year, epoch, latest_year) \<in> measure (\<lambda>(year, epoch, latest_year). unat (year - latest_year))"
    by simp
qed

function epoch_year_loop :: "16 word \<Rightarrow> 32 word \<Rightarrow> 16 word \<Rightarrow> 32 word \<times> 16 word" where
  "epoch_year_loop year epoch latest_year =
    (if (year - latest_year) > 0 then
       epoch_year_loop year (epoch + 86400 * 365) (latest_year + 1)
     else (epoch, latest_year))"
  by pat_completeness auto
termination
proof (relation "measure (\<lambda>(year, epoch, latest_year). unat (year - latest_year))")
  show "wf (measure (\<lambda>(year, epoch, latest_year). unat (year - latest_year)))" by simp
next
  fix year latest_year :: "16 word" and epoch :: "32 word"
  assume a: "0 < year - latest_year"
  then have b: "1 \<le> year - latest_year" by (simp add: word_less_nat_alt word_le_nat_alt)
  have "unat ((year - latest_year) - 1) = unat (year - latest_year) - unat (1 :: 16 word)"
    using b by (rule unat_sub)
  moreover have "1 \<le> unat (year - latest_year)"
    using b by (simp add: word_le_nat_alt)
  ultimately have "unat (year - (latest_year + 1)) < unat (year - latest_year)"
    by (simp add: diff_diff_eq [symmetric])
  then show "((year, epoch + 86400 * 365, latest_year + 1),
      year, epoch, latest_year) \<in> measure (\<lambda>(year, epoch, latest_year). unat (year - latest_year))"
    by simp
qed

text \<open>
  \<^verbatim>\<open>rtc_epoch\<close> takes a pointer to a \<^verbatim>\<open>struct tm\<close>: \<open>None\<close> is the null pointer, \<open>Some t\<close> a
  pointer to a structure holding \<open>t\<close>.  The result is the returned epoch and the structure
  as the call leaves it.
\<close>

definition rtc_epoch :: "tm option \<Rightarrow> fault + (32 word \<times> tm option)" where
  "rtc_epoch p =
    (case p of
       None \<Rightarrow> Inr (0, None)
     | Some timebuf \<Rightarrow>
       if tm_year timebuf <s 1973 then Inr (0, Some timebuf)
       else
         let epoch = EPOCH_AFTER_FIRST_LEAPYEAR;
             latest_year = (1973 :: 16 word);
             is_leap = (0 :: 16 word);
             (epoch, latest_year) = epoch_cycle_loop (tm_year timebuf) epoch latest_year;
             is_leap = (if (tm_year timebuf - latest_year) > 2 then 1 else is_leap);
             (epoch, latest_year) = epoch_year_loop (tm_year timebuf) epoch latest_year;
             timebuf = (if 366 <s tm_yday timebuf then timebuf\<lparr>tm_yday := 0\<rparr> else timebuf)
         in
           (case (if tm_yday timebuf = 0 \<and> (0 <s tm_mday timebuf \<or> 0 <s tm_mon timebuf)
                  then (case rtc_calculate_yday timebuf epoch is_leap of
                          Inl f \<Rightarrow> Inl f
                        | Inr y \<Rightarrow> Inr (timebuf\<lparr>tm_yday := y\<rparr>))
                  else Inr timebuf) of
              Inl f \<Rightarrow> Inl f
            | Inr timebuf \<Rightarrow>
              let epoch = epoch + scast (tm_yday timebuf) * 86400;
                  epoch = epoch + scast (tm_hour timebuf) * 3600;
                  epoch = epoch + scast (tm_min timebuf) * 60;
                  epoch = epoch + scast (tm_sec timebuf)
              in Inr (epoch, Some timebuf)))"

section \<open>Auxiliary definitions\<close>

text \<open>
  What follows is not part of the library.  \<open>alarm0_fires\<close> says that the interrupt taken in
  state \<open>s\<close> raises alarm 0: it sets \<^verbatim>\<open>RTCALARM_0_TRIGGERED\<close> even when the foreground had
  cleared that flag before the interrupt.  \<open>rtc_epoch_is_leap\<close> is the value that \<^verbatim>\<open>rtc_epoch\<close>
  gives its local \<^verbatim>\<open>is_leap\<close> for a year.  \<open>interpret_tail\<close> is the text of \<^verbatim>\<open>rtc_interpret\<close>
  from the assignment of \<^verbatim>\<open>tm_yday\<close> on, as a function of the values computed before it;
  lemma \<open>rtc_interpret_split\<close> shows that \<open>rtc_interpret\<close> is its head followed by this tail.
\<close>

definition alarm0_fires :: "16 word \<Rightarrow> 16 word \<Rightarrow> 16 word \<Rightarrow> rtc_vars \<Rightarrow> bool" where
  "alarm0_fires RTCIV_RTCIF LPM4_bits RTCIV s \<longleftrightarrow>
    rtc_status (RTC_ISR RTCIV_RTCIF LPM4_bits RTCIV
      (s\<lparr>rtc_status := rtc_status s AND NOT RTCALARM_0_TRIGGERED\<rparr>))
      AND RTCALARM_0_TRIGGERED \<noteq> 0"

definition rtc_epoch_is_leap :: "16 word \<Rightarrow> 16 word" where
  "rtc_epoch_is_leap year =
    (case epoch_cycle_loop year EPOCH_AFTER_FIRST_LEAPYEAR 1973 of
       (epoch, latest_year) \<Rightarrow> if (year - latest_year) > 2 then 1 else 0)"

definition interpret_tail :: "32 word \<Rightarrow> tm \<Rightarrow> 16 word \<Rightarrow> 32 word \<Rightarrow> fault + (tm_ptr \<times> tm)" where
  "interpret_tail epoch timebuf days_february remains_this_year =
    (let timebuf = timebuf\<lparr>tm_yday := ucast (remains_this_year div 86400)\<rparr>;
         timebuf = timebuf\<lparr>tm_mon := 0\<rparr>
     in
       (case month_loop days_february (scast (tm_yday timebuf)) 0 (tm_mon timebuf) of
          Inl f \<Rightarrow> Inl f
        | Inr (i, j, mon) \<Rightarrow>
          let timebuf = timebuf\<lparr>tm_mon := mon - 1\<rparr> in
          (case (if tm_mon timebuf = 1 then Inr (j - ucast days_february)
                 else (case monthInfo_days (sint (tm_mon timebuf)) of
                         Inl f \<Rightarrow> Inl f
                       | Inr d \<Rightarrow> Inr (j - ucast d))) of
             Inl f \<Rightarrow> Inl f
           | Inr j \<Rightarrow>
             let timebuf = timebuf\<lparr>tm_mday :=
                   ucast ((remains_this_year - (j * 86400)) div 86400 + 1)\<rparr>;
                 i = remains_this_year - scast (tm_yday timebuf) * 86400;
                 timebuf = timebuf\<lparr>tm_hour := ucast (c_sdiv i 3600)\<rparr>;
                 j = c_smod i 3600;
                 timebuf = timebuf\<lparr>tm_min := ucast (c_sdiv j 60)\<rparr>;
                 timebuf = timebuf\<lparr>tm_sec := ucast (c_smod j 60)\<rparr>;
                 weeks_since_epoch = epoch div (7 * 86400);
                 timebuf = timebuf\<lparr>tm_wday :=
                   ucast ((((epoch div 86400) - (weeks_since_epoch * 7)) + 4) mod 7)\<rparr>
             in Inr (TIMEBUF, timebuf))))"

text \<open>
  Natural-number readings of the quantities of the conversion, used to state the lemmas:
  the number of whole leap cycles since 1973, the seconds into the cycle, the year of the
  cycle (0 to 3, the last one being the leap year), the seconds into the year, the length
  of February, and the days of a month and before a month in a year with that February.
  Lemma \<open>rtc_interpret_char\<close> relates them to the code.
\<close>

definition mdays :: "nat \<Rightarrow> nat \<Rightarrow> nat" where
  "mdays feb m = (if m = 1 then feb else unat (days (monthInfo ! m)))"

primrec cum :: "nat \<Rightarrow> nat \<Rightarrow> nat" where
  "cum feb 0 = 0"
| "cum feb (Suc m) = cum feb m + mdays feb m"

definition cycles_of :: "nat \<Rightarrow> nat" where
  "cycles_of n = (n - 94694400) div 126230400"

definition remains_of :: "nat \<Rightarrow> nat" where
  "remains_of n = (n - 94694400) mod 126230400"

definition year_in_cycle :: "nat \<Rightarrow> nat" where
  "year_in_cycle n = min 3 (remains_of n div 31536000)"

definition secs_in_year :: "nat \<Rightarrow> nat" where
  "secs_in_year n = remains_of n - year_in_cycle n * 31536000"

definition feb_of :: "nat \<Rightarrow> nat" where
  "feb_of n = (if year_in_cycle n = 3 then 29 else 28)"

definition years_before :: "nat \<Rightarrow> nat" where
  "years_before n = 3 + 4 * cycles_of n"

definition year_of :: "nat \<Rightarrow> nat" where
  "year_of n = years_before n + year_in_cycle n + 1970"

text \<open>
  The Gregorian rule for leap years, the calendar against which the dates of the library
  are read: every fourth year, except the century years not divisible by 400.
\<close>

definition gregorian_leap :: "int \<Rightarrow> bool" where
  "gregorian_leap y \<longleftrightarrow> y mod 4 = 0 \<and> (y mod 100 \<noteq> 0 \<or> y mod 400 = 0)"

section \<open>Concrete inputs\<close>

definition timebuf_zero :: tm where
  "timebuf_zero = \<lparr>tm_sec = 0, tm_min = 0, tm_hour = 0, tm_mday = 0, tm_mon = 0,
     tm_year = 0, tm_wday = 0, tm_yday = 0, tm_isdst = 0\<rparr>"

text \<open>A calendar value of 1972, one year before the first supported year.\<close>

definition tm_1972 :: tm where
  "tm_1972 = timebuf_zero\<lparr>tm_year := 1972, tm_mday := 1\<rparr>"

text \<open>
  The library's variables in the middle of the night of 2001-09-09, with both alarms
  disabled, an empty status word (so \<^verbatim>\<open>RTC_TICK_DOES_WAKEUP\<close> is clear), and a saved status
  register holding \<^verbatim>\<open>LPM4_bits | GIE\<close> for the values \<^verbatim>\<open>LPM4_bits = 0x00F0\<close> and
  \<^verbatim>\<open>GIE = 0x0008\<close>: the CPU sleeps in LPM4.
\<close>

definition vars_asleep :: rtc_vars where
  "vars_asleep = \<lparr>rtcepoch = 1000000000, rtcalarm0 = 0, rtcalarm0_incr = 0,
     rtcalarm1 = 0, rtcalarm1_incr = 0, rtc_status = 0, saved_SR = 0x00F8\<rparr>"

text \<open>
  Alarm 0 armed ten seconds ahead with a re-arm increment of five seconds: once in 2001, and
  once ten seconds before the 32-bit counter wraps, where the target \<open>rtcepoch + 10\<close> is 0.
\<close>

definition vars_alarm :: rtc_vars where
  "vars_alarm = \<lparr>rtcepoch = 1000000000, rtcalarm0 = 1000000000 + 10, rtcalarm0_incr = 5,
     rtcalarm1 = 0, rtcalarm1_incr = 0, rtc_status = 0, saved_SR = 0x00F8\<rparr>"

definition vars_wrap :: rtc_vars where
  "vars_wrap = \<lparr>rtcepoch = 0xFFFFFFF6, rtcalarm0 = 0xFFFFFFF6 + 10, rtcalarm0_incr = 5,
     rtcalarm1 = 0, rtcalarm1_incr = 0, rtc_status = 0, saved_SR = 0x00F8\<rparr>"

text \<open>
  Calendar values: day 400 of 1972; 1973 with month \<open>-1\<close> (\<open>0xFFFF\<close> as a 16-bit \<^verbatim>\<open>int\<close>);
  March 1, 1980 with a day of the year that is out of range.
\<close>

definition tm_1972_yday_400 :: tm where
  "tm_1972_yday_400 = timebuf_zero\<lparr>tm_year := 1972, tm_mday := 1, tm_yday := 400\<rparr>"

definition tm_1973_month_minus_1 :: tm where
  "tm_1973_month_minus_1 = timebuf_zero\<lparr>tm_year := 1973, tm_mon := 0xFFFF\<rparr>"

definition tm_1980_march_1 :: tm where
  "tm_1980_march_1 = timebuf_zero\<lparr>tm_year := 1980, tm_mon := 2, tm_mday := 1, tm_yday := 400\<rparr>"

text \<open>February 29, 2100, a Monday: a date that the Gregorian calendar does not have.\<close>

definition tm_2100_feb_29 :: tm where
  "tm_2100_feb_29 = \<lparr>tm_sec = 0, tm_min = 0, tm_hour = 0, tm_mday = 29, tm_mon = 1,
     tm_year = 2100, tm_wday = 1, tm_yday = 59, tm_isdst = 0\<rparr>"

section \<open>Lemmas on machine words\<close>

declare cum.simps [simp del]

declare last_leapyear_loop.simps [simp del] month_loop.simps [simp del]
  yday_loop.simps [simp del] epoch_cycle_loop.simps [simp del] epoch_year_loop.simps [simp del]

lemma EPOCH_AFTER_FIRST_LEAPYEAR_value: "EPOCH_AFTER_FIRST_LEAPYEAR = 94694400"
  by (simp add: EPOCH_AFTER_FIRST_LEAPYEAR_def)

lemma TOTAL_SECONDS_PER_LEAP_CYCLE_value: "TOTAL_SECONDS_PER_LEAP_CYCLE = 126230400"
  by (simp add: TOTAL_SECONDS_PER_LEAP_CYCLE_def)

lemma w32_unat_of_nat: "a < 4294967296 \<Longrightarrow> unat (of_nat a :: 32 word) = a"
  by (simp add: unat_of_nat)

lemma w16_unat_of_nat: "a < 65536 \<Longrightarrow> unat (of_nat a :: 16 word) = a"
  by (simp add: unat_of_nat)

lemma w32_div_of_nat:
  "a < 4294967296 \<Longrightarrow> b < 4294967296 \<Longrightarrow> (of_nat a :: 32 word) div of_nat b = of_nat (a div b)"
  by (rule word_unat_eq_iff [THEN iffD2])
    (simp add: unat_div w32_unat_of_nat less_imp_diff_less div_le_dividend le_less_trans [OF div_le_dividend])

lemma w32_mod_of_nat:
  "a < 4294967296 \<Longrightarrow> b < 4294967296 \<Longrightarrow> (of_nat a :: 32 word) mod of_nat b = of_nat (a mod b)"
  by (rule word_unat_eq_iff [THEN iffD2])
    (simp add: unat_mod w32_unat_of_nat le_less_trans [OF mod_less_eq_dividend])

lemma ucast_32_16_of_nat: "(ucast (of_nat a :: 32 word) :: 16 word) = of_nat a"
  by (rule word_unat_eq_iff [THEN iffD2])
    (simp add: unsigned_ucast_eq unat_of_nat take_bit_eq_mod mod_mod_cancel)

lemma ucast_16_32_of_nat: "a < 65536 \<Longrightarrow> (ucast (of_nat a :: 16 word) :: 32 word) = of_nat a"
  by (rule word_unat_eq_iff [THEN iffD2])
    (simp add: unsigned_ucast_eq unat_of_nat take_bit_eq_mod)

lemma scast_16_32_of_nat: "a < 32768 \<Longrightarrow> (scast (of_nat a :: 16 word) :: 32 word) = of_nat a"
proof -
  assume a: "a < 32768"
  have "sint (of_nat a :: 16 word) = int a"
    using a by (simp add: signed_of_nat signed_take_bit_int_eq_self)
  then show ?thesis
    by (simp add: scast_eq)
qed

lemma sint_16_of_nat: "a < 32768 \<Longrightarrow> sint (of_nat a :: 16 word) = int a"
  by (simp add: signed_of_nat signed_take_bit_int_eq_self)

lemma sint_32_of_int: "- 2147483648 \<le> k \<Longrightarrow> k < 2147483648 \<Longrightarrow> sint (of_int k :: 32 word) = k"
  by (simp add: signed_of_int signed_take_bit_int_eq_self)

lemma c_sdiv_of_nat:
  "a < 2147483648 \<Longrightarrow> b < 2147483648 \<Longrightarrow> c_sdiv (of_nat a :: 32 word) (of_nat b) = of_nat (a div b)"
proof -
  assume a: "a < 2147483648" and b: "b < 2147483648"
  have "sint (of_nat a :: 32 word) = int a" "sint (of_nat b :: 32 word) = int b"
    using a b sint_32_of_int [of "int a"] sint_32_of_int [of "int b"] by simp_all
  moreover have "int a sdiv int b = int (a div b)"
    by (simp add: signed_divide_int_def sgn_if zdiv_int)
  ultimately show ?thesis
    by (simp only: c_sdiv_def of_int_of_nat_eq)
qed

lemma c_smod_of_nat:
  "a < 2147483648 \<Longrightarrow> b < 2147483648 \<Longrightarrow> c_smod (of_nat a :: 32 word) (of_nat b) = of_nat (a mod b)"
proof -
  assume a: "a < 2147483648" and b: "b < 2147483648"
  have "sint (of_nat a :: 32 word) = int a" "sint (of_nat b :: 32 word) = int b"
    using a b sint_32_of_int [of "int a"] sint_32_of_int [of "int b"] by simp_all
  moreover have "int a smod int b = int (a mod b)"
    by (simp add: signed_modulo_int_def sgn_if zmod_int)
  ultimately show ?thesis
    by (simp only: c_smod_def of_int_of_nat_eq)
qed

section \<open>Properties of the interrupt service routine\<close>

lemma RTC_ISR_rtcepoch:
  "RTCIV AND RTCIV_RTCIF \<noteq> 0 \<Longrightarrow>
    rtcepoch (RTC_ISR RTCIV_RTCIF LPM4_bits RTCIV s) = rtcepoch s + 1"
  by (simp add: RTC_ISR_def Let_def)

lemma RTC_ISR_rtc_status:
  "RTCIV AND RTCIV_RTCIF \<noteq> 0 \<Longrightarrow>
    rtc_status (RTC_ISR RTCIV_RTCIF LPM4_bits RTCIV s) =
      rtc_status s OR RTC_TICK
        OR (if rtcalarm0 s > 0 \<and> rtcepoch s + 1 = rtcalarm0 s then RTCALARM_0_TRIGGERED else 0)
        OR (if rtcalarm1 s > 0 \<and> rtcepoch s + 1 = rtcalarm1 s then RTCALARM_1_TRIGGERED else 0)"
  by (simp add: RTC_ISR_def Let_def ac_simps)

lemma RTC_ISR_tick_flag:
  assumes "RTCIV AND RTCIV_RTCIF \<noteq> 0"
  shows "rtc_status (RTC_ISR RTCIV_RTCIF LPM4_bits RTCIV s) AND RTC_TICK = RTC_TICK"
  unfolding RTC_ISR_rtc_status [OF assms]
  by (simp only: bit_eq_iff bit_and_iff bit_or_iff) blast

lemma RTC_ISR_alarm0_flag:
  assumes "RTCIV AND RTCIV_RTCIF \<noteq> 0"
  shows "rtc_status (RTC_ISR RTCIV_RTCIF LPM4_bits RTCIV s) AND RTCALARM_0_TRIGGERED =
    (if rtcalarm0 s > 0 \<and> rtcepoch s + 1 = rtcalarm0 s then RTCALARM_0_TRIGGERED
     else rtc_status s AND RTCALARM_0_TRIGGERED)"
proof -
  have a: "RTC_TICK AND RTCALARM_0_TRIGGERED = 0" "RTCALARM_1_TRIGGERED AND RTCALARM_0_TRIGGERED = 0"
    by (simp_all add: RTC_TICK_def RTCALARM_0_TRIGGERED_def RTCALARM_1_TRIGGERED_def)
  show ?thesis
    unfolding RTC_ISR_rtc_status [OF assms]
    by (simp add: bit.conj_disj_distrib2 a)
qed

lemma RTC_ISR_rtcalarm0:
  assumes "RTCIV AND RTCIV_RTCIF \<noteq> 0"
  shows "rtcalarm0 (RTC_ISR RTCIV_RTCIF LPM4_bits RTCIV s) =
    (if rtcalarm0 s > 0 \<and> rtcepoch s + 1 = rtcalarm0 s \<and> rtcalarm0_incr s > 0
     then rtcalarm0 s + rtcalarm0_incr s else rtcalarm0 s)"
    and "rtcalarm0_incr (RTC_ISR RTCIV_RTCIF LPM4_bits RTCIV s) = rtcalarm0_incr s"
  using assms by (simp_all add: RTC_ISR_def Let_def)

lemma ticks_add:
  "ticks F L V (m + n) s = ticks F L V m (ticks F L V n s)"
  by (induction m) simp_all

lemma alarm0_fires_iff:
  assumes "RTCIV AND RTCIV_RTCIF \<noteq> 0"
  shows "alarm0_fires RTCIV_RTCIF LPM4_bits RTCIV s \<longleftrightarrow>
    rtcalarm0 s > 0 \<and> rtcepoch s + 1 = rtcalarm0 s"
proof -
  have "RTCALARM_0_TRIGGERED \<noteq> 0" by (simp add: RTCALARM_0_TRIGGERED_def)
  then show ?thesis
    unfolding alarm0_fires_def RTC_ISR_alarm0_flag [OF assms]
    by (simp add: and.assoc)
qed

lemma w32_of_nat_inj:
  "a < 4294967296 \<Longrightarrow> b < 4294967296 \<Longrightarrow> ((of_nat a :: 32 word) = of_nat b) = (a = b)"
proof -
  assume a: "a < 4294967296" and b: "b < 4294967296"
  have "unat (of_nat a :: 32 word) = a" "unat (of_nat b :: 32 word) = b"
    using a b by (simp_all add: unat_of_nat)
  then show ?thesis by metis
qed

lemma ticks_alarm0_quiet:
  assumes p: "RTCIV AND RTCIV_RTCIF \<noteq> 0"
    and a: "rtcalarm0 s = rtcepoch s + of_nat d" and d: "d < 4294967296"
  shows "k < d \<Longrightarrow>
    rtcepoch (ticks RTCIV_RTCIF LPM4_bits RTCIV k s) = rtcepoch s + of_nat k \<and>
    rtcalarm0 (ticks RTCIV_RTCIF LPM4_bits RTCIV k s) = rtcalarm0 s \<and>
    rtcalarm0_incr (ticks RTCIV_RTCIF LPM4_bits RTCIV k s) = rtcalarm0_incr s \<and>
    rtc_status (ticks RTCIV_RTCIF LPM4_bits RTCIV k s) AND RTCALARM_0_TRIGGERED =
      rtc_status s AND RTCALARM_0_TRIGGERED"
proof (induction k)
  case 0
  show ?case by simp
next
  case (Suc k)
  define s' where "s' = ticks RTCIV_RTCIF LPM4_bits RTCIV k s"
  from Suc have IH: "rtcepoch s' = rtcepoch s + of_nat k" "rtcalarm0 s' = rtcalarm0 s"
    "rtcalarm0_incr s' = rtcalarm0_incr s"
    "rtc_status s' AND RTCALARM_0_TRIGGERED = rtc_status s AND RTCALARM_0_TRIGGERED"
    by (simp_all add: s'_def)
  have "(of_nat (Suc k) :: 32 word) \<noteq> of_nat d"
    using Suc.prems d by (simp only: w32_of_nat_inj)
  then have ne: "rtcepoch s' + 1 \<noteq> rtcalarm0 s'"
    by (simp add: IH a add.assoc add.commute [of _ 1])
  show ?case
    unfolding ticks.simps s'_def [symmetric]
    using ne by (simp add: RTC_ISR_rtcepoch [OF p] RTC_ISR_rtcalarm0 [OF p]
        RTC_ISR_alarm0_flag [OF p] IH add.assoc)
qed

lemma ticks_alarm0_disabled:
  assumes p: "RTCIV AND RTCIV_RTCIF \<noteq> 0" and a: "rtcalarm0 s = 0"
  shows "rtcalarm0 (ticks RTCIV_RTCIF LPM4_bits RTCIV k s) = 0 \<and>
    rtc_status (ticks RTCIV_RTCIF LPM4_bits RTCIV k s) AND RTCALARM_0_TRIGGERED =
      rtc_status s AND RTCALARM_0_TRIGGERED"
  by (induction k) (simp_all add: a RTC_ISR_rtcalarm0 [OF p] RTC_ISR_alarm0_flag [OF p])

lemma ticks_alarm0_fire:
  assumes p: "RTCIV AND RTCIV_RTCIF \<noteq> 0"
    and a: "rtcalarm0 s = rtcepoch s + of_nat (Suc d)" and d: "Suc d < 4294967296"
    and nz: "rtcalarm0 s \<noteq> 0" and i: "rtcalarm0_incr s \<noteq> 0"
  shows "rtcepoch (ticks RTCIV_RTCIF LPM4_bits RTCIV (Suc d) s) = rtcalarm0 s \<and>
    rtcalarm0 (ticks RTCIV_RTCIF LPM4_bits RTCIV (Suc d) s) = rtcalarm0 s + rtcalarm0_incr s \<and>
    rtcalarm0_incr (ticks RTCIV_RTCIF LPM4_bits RTCIV (Suc d) s) = rtcalarm0_incr s \<and>
    rtc_status (ticks RTCIV_RTCIF LPM4_bits RTCIV (Suc d) s) AND RTCALARM_0_TRIGGERED =
      RTCALARM_0_TRIGGERED"
proof -
  define s' where "s' = ticks RTCIV_RTCIF LPM4_bits RTCIV d s"
  from ticks_alarm0_quiet [OF p a d, of d LPM4_bits]
  have q: "rtcepoch s' = rtcepoch s + of_nat d" "rtcalarm0 s' = rtcalarm0 s"
    "rtcalarm0_incr s' = rtcalarm0_incr s"
    by (simp_all add: s'_def)
  have eq: "rtcepoch s' + 1 = rtcalarm0 s'"
    by (simp add: q a add.assoc)
  have pos: "0 < rtcalarm0 s'" "0 < rtcalarm0_incr s'"
    using nz i by (simp_all add: q word_greater_zero_iff)
  show ?thesis
    unfolding ticks.simps s'_def [symmetric]
    using eq pos
    by (simp add: RTC_ISR_rtcepoch [OF p] RTC_ISR_rtcalarm0 [OF p] RTC_ISR_alarm0_flag [OF p] q)
qed

lemma ticks_rtcepoch:
  "RTCIV AND RTCIV_RTCIF \<noteq> 0 \<Longrightarrow>
    rtcepoch (ticks RTCIV_RTCIF LPM4_bits RTCIV n s) = rtcepoch s + of_nat n"
  by (induction n) (simp_all add: RTC_ISR_rtcepoch)

text \<open>
  Claim C3.  An interrupt that finds the RTC interrupt flag in \<^verbatim>\<open>RTCIV\<close> adds exactly 1 to
  \<open>rtcepoch\<close> and leaves \<^verbatim>\<open>RTC_TICK\<close> set in \<open>rtc_status\<close>.  After \<open>n\<close> such interrupts
  \<open>rtcepoch\<close> is its old value plus \<open>n\<close>, in the arithmetic of the 32-bit counter; as long as
  the sum stays below \<open>2 ^ 32\<close> this is the sum of the natural numbers.
\<close>

theorem RTC_ISR_counts_every_tick:
  assumes "RTCIV AND RTCIV_RTCIF \<noteq> 0"
  shows "rtcepoch (RTC_ISR RTCIV_RTCIF LPM4_bits RTCIV s) = rtcepoch s + 1 \<and>
    rtc_status (RTC_ISR RTCIV_RTCIF LPM4_bits RTCIV s) AND RTC_TICK = RTC_TICK \<and>
    rtcepoch (ticks RTCIV_RTCIF LPM4_bits RTCIV n s) = rtcepoch s + of_nat n \<and>
    (unat (rtcepoch s) + n < 2 ^ 32 \<longrightarrow>
      unat (rtcepoch (ticks RTCIV_RTCIF LPM4_bits RTCIV n s)) = unat (rtcepoch s) + n)"
proof (intro conjI impI)
  show "rtcepoch (RTC_ISR RTCIV_RTCIF LPM4_bits RTCIV s) = rtcepoch s + 1"
    using assms by (rule RTC_ISR_rtcepoch)
  show "rtc_status (RTC_ISR RTCIV_RTCIF LPM4_bits RTCIV s) AND RTC_TICK = RTC_TICK"
    using assms by (rule RTC_ISR_tick_flag)
  show t: "rtcepoch (ticks RTCIV_RTCIF LPM4_bits RTCIV n s) = rtcepoch s + of_nat n"
    using assms by (rule ticks_rtcepoch)
  assume b: "unat (rtcepoch s) + n < 2 ^ 32"
  then have "n < 2 ^ 32" by simp
  then have "unat (of_nat n :: 32 word) = n"
    by (simp add: unat_of_nat)
  moreover have "unat (rtcepoch s + of_nat n) = (unat (rtcepoch s) + unat (of_nat n :: 32 word)) mod 2 ^ 32"
    by (simp add: unat_word_ariths)
  ultimately show "unat (rtcepoch (ticks RTCIV_RTCIF LPM4_bits RTCIV n s)) = unat (rtcepoch s) + n"
    using b by (simp add: t)
qed

theorem RTC_ISR_counts_every_tick_witness:
  "(2 :: 16 word) AND 2 \<noteq> 0 \<and>
   unat (rtcepoch vars_asleep) + 3 < 2 ^ 32 \<and>
   rtcepoch (RTC_ISR 2 0x00F0 2 vars_asleep) = 1000000001 \<and>
   rtc_status (RTC_ISR 2 0x00F0 2 vars_asleep) AND RTC_TICK = RTC_TICK \<and>
   rtcepoch (ticks 2 0x00F0 2 3 vars_asleep) = 1000000003 \<and>
   unat (rtcepoch (ticks 2 0x00F0 2 3 vars_asleep)) = 1000000003"
proof -
  have h: "(2 :: 16 word) AND 2 \<noteq> 0" by simp
  have b: "unat (rtcepoch vars_asleep) + 3 < 2 ^ 32" by (simp add: vars_asleep_def)
  show ?thesis
    using RTC_ISR_counts_every_tick [OF h, of "0x00F0" vars_asleep 3] h b
    by (simp add: vars_asleep_def)
qed

text \<open>
  Claim C4, amended.  Alarm 0 is armed in a state with \<open>rtcepoch = e0\<close>, target \<open>e0 + 10\<close> and
  re-arm increment 5, and neither \<open>e0 + 10\<close> nor \<open>e0 + 15\<close> is 0 in the 32-bit counter (a
  target of 0 means that the alarm is disabled).  Tick \<open>k + 1\<close> is the interrupt taken after
  \<open>k\<close> ticks.  Among the first fifteen ticks exactly the 10th and the 15th raise the alarm;
  the target is \<open>e0 + 10\<close> before the 10th tick, \<open>e0 + 15\<close> from the 10th to before the 15th, and
  \<open>e0 + 20\<close> after the 15th; \<^verbatim>\<open>RTCALARM_0_TRIGGERED\<close> keeps its old value before the 10th tick
  and is set from then on.
\<close>

theorem alarm0_fires_on_ticks_10_and_15:
  assumes p: "RTCIV AND RTCIV_RTCIF \<noteq> 0"
    and s: "rtcepoch s = e0" "rtcalarm0 s = e0 + 10" "rtcalarm0_incr s = 5"
    and nz: "e0 + 10 \<noteq> 0" "e0 + 15 \<noteq> 0"
    and k: "k < 15"
  shows "alarm0_fires RTCIV_RTCIF LPM4_bits RTCIV (ticks RTCIV_RTCIF LPM4_bits RTCIV k s)
      = (k = 9 \<or> k = 14) \<and>
    rtcalarm0 (ticks RTCIV_RTCIF LPM4_bits RTCIV k s) = (if k < 10 then e0 + 10 else e0 + 15) \<and>
    rtc_status (ticks RTCIV_RTCIF LPM4_bits RTCIV k s) AND RTCALARM_0_TRIGGERED
      = (if k < 10 then rtc_status s AND RTCALARM_0_TRIGGERED else RTCALARM_0_TRIGGERED) \<and>
    rtcalarm0 (ticks RTCIV_RTCIF LPM4_bits RTCIV 15 s) = e0 + 20 \<and>
    rtc_status (ticks RTCIV_RTCIF LPM4_bits RTCIV 15 s) AND RTCALARM_0_TRIGGERED
      = RTCALARM_0_TRIGGERED"
proof -
  define s10 where "s10 = ticks RTCIV_RTCIF LPM4_bits RTCIV 10 s"
  have a10: "rtcalarm0 s = rtcepoch s + of_nat (Suc 9)" by (simp add: s)
  have "rtcalarm0 s \<noteq> 0" "rtcalarm0_incr s \<noteq> 0" using nz by (simp_all add: s)
  from ticks_alarm0_fire [OF p a10 _ this, of LPM4_bits]
  have s10: "rtcepoch s10 = e0 + 10" "rtcalarm0 s10 = e0 + 15" "rtcalarm0_incr s10 = 5"
    "rtc_status s10 AND RTCALARM_0_TRIGGERED = RTCALARM_0_TRIGGERED"
    by (simp_all add: s10_def s)
  have a15: "rtcalarm0 s10 = rtcepoch s10 + of_nat (Suc 4)" by (simp add: s10)
  have "rtcalarm0 s10 \<noteq> 0" "rtcalarm0_incr s10 \<noteq> 0" using nz by (simp_all add: s10)
  from ticks_alarm0_fire [OF p a15 _ this, of LPM4_bits]
  have s15': "rtcalarm0 (ticks RTCIV_RTCIF LPM4_bits RTCIV 5 s10) = e0 + 20"
    "rtc_status (ticks RTCIV_RTCIF LPM4_bits RTCIV 5 s10) AND RTCALARM_0_TRIGGERED
      = RTCALARM_0_TRIGGERED"
    by (simp_all add: s10)
  have "ticks RTCIV_RTCIF LPM4_bits RTCIV 15 s = ticks RTCIV_RTCIF LPM4_bits RTCIV 5 s10"
    using ticks_add [of RTCIV_RTCIF LPM4_bits RTCIV 5 10 s] by (simp add: s10_def)
  with s15' have s15: "rtcalarm0 (ticks RTCIV_RTCIF LPM4_bits RTCIV 15 s) = e0 + 20"
    "rtc_status (ticks RTCIV_RTCIF LPM4_bits RTCIV 15 s) AND RTCALARM_0_TRIGGERED
      = RTCALARM_0_TRIGGERED"
    by simp_all
  have pos: "0 < e0 + 10" "0 < e0 + 15"
    using nz by (simp_all add: word_greater_zero_iff)
  show ?thesis
  proof (cases "k < 10")
    case True
    from ticks_alarm0_quiet [OF p a10 _ , of k LPM4_bits] True
    have q: "rtcepoch (ticks RTCIV_RTCIF LPM4_bits RTCIV k s) = e0 + of_nat k"
      "rtcalarm0 (ticks RTCIV_RTCIF LPM4_bits RTCIV k s) = e0 + 10"
      "rtc_status (ticks RTCIV_RTCIF LPM4_bits RTCIV k s) AND RTCALARM_0_TRIGGERED =
        rtc_status s AND RTCALARM_0_TRIGGERED"
      by (simp_all add: s)
    have "((of_nat (Suc k) :: 32 word) = of_nat 10) = (Suc k = 10)"
      using True by (intro w32_of_nat_inj) simp_all
    then have "(e0 + of_nat k + 1 = e0 + 10) = (k = 9)"
      by (simp add: add.assoc add.commute [of _ 1])
    then show ?thesis
      using True pos by (simp add: alarm0_fires_iff [OF p] q s15)
  next
    case False
    define j where "j = k - 10"
    have j: "j < 5" "k = j + 10" using False k by (simp_all add: j_def)
    have t: "ticks RTCIV_RTCIF LPM4_bits RTCIV k s = ticks RTCIV_RTCIF LPM4_bits RTCIV j s10"
      unfolding j(2) ticks_add s10_def ..
    from ticks_alarm0_quiet [OF p a15 _ , of j LPM4_bits] j(1)
    have q: "rtcepoch (ticks RTCIV_RTCIF LPM4_bits RTCIV j s10) = e0 + 10 + of_nat j"
      "rtcalarm0 (ticks RTCIV_RTCIF LPM4_bits RTCIV j s10) = e0 + 15"
      "rtc_status (ticks RTCIV_RTCIF LPM4_bits RTCIV j s10) AND RTCALARM_0_TRIGGERED =
        RTCALARM_0_TRIGGERED"
      by (simp_all add: s10)
    have "((of_nat (Suc j) :: 32 word) = of_nat 5) = (Suc j = 5)"
      using j(1) by (intro w32_of_nat_inj) simp_all
    then have "(e0 + 10 + of_nat j + 1 = e0 + 15) = (j = 4)"
      by (simp add: add.assoc add.commute [of _ 1])
    moreover have "(j = 4) = (k = 9 \<or> k = 14)" using j by auto
    ultimately show ?thesis
      using False pos unfolding t by (simp add: alarm0_fires_iff [OF p] q s15)
  qed
qed

theorem alarm0_fires_on_ticks_10_and_15_witness:
  "(2 :: 16 word) AND 2 \<noteq> 0 \<and> rtcalarm0 vars_alarm = rtcepoch vars_alarm + 10 \<and>
   rtcalarm0_incr vars_alarm = 5 \<and> rtcepoch vars_alarm + 10 \<noteq> 0 \<and>
   rtcepoch vars_alarm + 15 \<noteq> 0 \<and> (9 :: nat) < 15 \<and>
   alarm0_fires 2 0x00F0 2 (ticks 2 0x00F0 2 9 vars_alarm) \<and>
   rtcalarm0 (ticks 2 0x00F0 2 9 vars_alarm) = 1000000010 \<and>
   rtcalarm0 (ticks 2 0x00F0 2 15 vars_alarm) = 1000000020"
proof -
  have p: "(2 :: 16 word) AND 2 \<noteq> 0" by simp
  have s: "rtcepoch vars_alarm = 1000000000" "rtcalarm0 vars_alarm = 1000000000 + 10"
    "rtcalarm0_incr vars_alarm = 5"
    by (simp_all add: vars_alarm_def)
  have nz: "(1000000000 :: 32 word) + 10 \<noteq> 0" "(1000000000 :: 32 word) + 15 \<noteq> 0" by simp_all
  have k: "(9 :: nat) < 15" by simp
  show ?thesis
    using alarm0_fires_on_ticks_10_and_15 [OF p s nz k, of "0x00F0"] by (simp add: vars_alarm_def)
qed

text \<open>
  The claim as it is written fails ten seconds before the counter wraps: the target
  \<open>rtcepoch + 10\<close> is then 0, the alarm is disabled, and after ten ticks the flag is still
  clear and the target has not moved.
\<close>

theorem alarm0_target_wraps_counterexample:
  "rtcalarm0 vars_wrap = rtcepoch vars_wrap + 10 \<and> rtcalarm0_incr vars_wrap = 5 \<and>
   rtc_status (ticks 2 0x00F0 2 10 vars_wrap) AND RTCALARM_0_TRIGGERED = 0 \<and>
   rtcalarm0 (ticks 2 0x00F0 2 10 vars_wrap) \<noteq> rtcepoch vars_wrap + 15"
proof -
  have p: "(2 :: 16 word) AND 2 \<noteq> 0" by simp
  have a: "rtcalarm0 vars_wrap = 0" by (simp add: vars_wrap_def)
  show ?thesis
    using ticks_alarm0_disabled [OF p a, of "0x00F0" 10] by (simp add: vars_wrap_def)
qed
text \<open>
  Claim C9.  The header documents \<^verbatim>\<open>RTC_TICK_DOES_WAKEUP\<close> as the setting that makes the
  interrupt wake the chip on every tick, and says that clearing it avoids the wake-up unless
  an alarm triggers.  The interrupt routine never reads the bit: a tick that triggers no alarm,
  taken with the bit clear, clears \<^verbatim>\<open>LPM4_bits\<close> in the saved status register all the same,
  so the CPU wakes.
\<close>

theorem RTC_ISR_wakes_with_RTC_TICK_DOES_WAKEUP_clear:
  "rtc_status vars_asleep AND RTC_TICK_DOES_WAKEUP = 0 \<and>
   saved_SR vars_asleep AND 0x00F0 = 0x00F0 \<and>
   rtc_status (RTC_ISR 2 0x00F0 2 vars_asleep) = RTC_TICK \<and>
   saved_SR (RTC_ISR 2 0x00F0 2 vars_asleep) AND 0x00F0 = 0"
  by (simp add: RTC_ISR_def vars_asleep_def Let_def RTC_TICK_def)

section \<open>Properties of the conversions\<close>

text \<open>
  Claim C2.  \<^verbatim>\<open>EPOCH_AFTER_FIRST_LEAPYEAR\<close> is the number of seconds in 1970, 1971 and 1972,
  the first second of 1973.  For every epoch below it \<^verbatim>\<open>rtc_interpret\<close> returns \<^verbatim>\<open>NULL\<close> and
  leaves its buffer as it was: no field is written.
\<close>

theorem rtc_interpret_before_1973:
  "unat EPOCH_AFTER_FIRST_LEAPYEAR = (365 + 365 + 366) * 86400 \<and>
   (epoch < EPOCH_AFTER_FIRST_LEAPYEAR \<longrightarrow> rtc_interpret epoch timebuf = Inr (NULL, timebuf))"
  by (simp add: rtc_interpret_def rtc_calculate_last_leapyear_def EPOCH_AFTER_FIRST_LEAPYEAR_value)

theorem rtc_interpret_before_1973_witness:
  "(94694399 :: 32 word) < EPOCH_AFTER_FIRST_LEAPYEAR \<and>
   rtc_interpret 94694399 timebuf_zero = Inr (NULL, timebuf_zero)"
  using rtc_interpret_before_1973 [of 94694399 timebuf_zero]
  by (simp add: EPOCH_AFTER_FIRST_LEAPYEAR_value)

text \<open>
  Claim C5.  1976-02-29T00:00:00Z is 6 years, one leap day, January and 28 days of February
  after the epoch origin; 1977-03-01T00:00:00Z is 7 years, two leap days, January and the 28
  days of February after it.  \<^verbatim>\<open>rtc_interpret\<close> returns February 29, 1976 (month 1) for the
  first and March 1, 1977 (month 2) for the second; the day before the second is February 28.
\<close>

theorem rtc_interpret_leap_day:
  "(\<exists>t. rtc_interpret ((6 * 365 + 1 + 31 + 28) * 86400) timebuf = Inr (TIMEBUF, t) \<and>
      tm_year t = 1976 \<and> tm_mon t = 1 \<and> tm_mday t = 29) \<and>
   (\<exists>t. rtc_interpret ((7 * 365 + 2 + 31 + 28) * 86400) timebuf = Inr (TIMEBUF, t) \<and>
      tm_year t = 1977 \<and> tm_mon t = 2 \<and> tm_mday t = 1) \<and>
   (\<exists>t. rtc_interpret ((7 * 365 + 2 + 31 + 27) * 86400) timebuf = Inr (TIMEBUF, t) \<and>
      tm_year t = 1977 \<and> tm_mon t = 1 \<and> tm_mday t = 28)"
  by (simp add: rtc_interpret_def rtc_calculate_last_leapyear_def EPOCH_AFTER_FIRST_LEAPYEAR_def
      TOTAL_SECONDS_PER_LEAP_CYCLE_def last_leapyear_loop.simps month_loop.simps
      monthInfo_days_def monthInfo_def c_sdiv_def c_smod_def Let_def word_sless_alt)

text \<open>
  Claim C7.  \<^verbatim>\<open>rtc_epoch\<close> returns 0 for a null pointer, and for a structure whose
  \<^verbatim>\<open>tm_year\<close> is below 1973; it leaves the structure as it was.
\<close>

theorem rtc_epoch_rejects_before_1973:
  "rtc_epoch None = Inr (0, None) \<and>
   (tm_year t <s 1973 \<longrightarrow> rtc_epoch (Some t) = Inr (0, Some t))"
  by (simp add: rtc_epoch_def)

theorem rtc_epoch_rejects_before_1973_witness:
  "tm_year tm_1972 <s 1973 \<and> rtc_epoch (Some tm_1972) = Inr (0, Some tm_1972)"
proof -
  have h: "tm_year tm_1972 <s 1973"
    by (simp add: tm_1972_def timebuf_zero_def word_sless_alt)
  with rtc_epoch_rejects_before_1973 [of tm_1972] show ?thesis by simp
qed

subsection \<open>The loops and the body of the conversions\<close>

lemma last_leapyear_loop_eq:
  "last_leapyear_loop e a y =
    (of_nat (unat e mod 126230400),
     a + of_nat (unat e div 126230400 * 126230400),
     y + of_nat (4 * (unat e div 126230400)))"
proof (induction e a y rule: last_leapyear_loop.induct)
  case (1 epoch accum years')
  show ?case
  proof (cases "TOTAL_SECONDS_PER_LEAP_CYCLE \<le> epoch")
    case True
    then have le: "126230400 \<le> unat epoch"
      by (simp add: word_le_nat_alt TOTAL_SECONDS_PER_LEAP_CYCLE_value)
    have u: "unat (epoch - 126230400) = unat epoch - 126230400"
      using unat_sub [OF True] by (simp add: TOTAL_SECONDS_PER_LEAP_CYCLE_value)
    have m: "(unat epoch - 126230400) mod 126230400 = unat epoch mod 126230400"
      using le by (simp add: le_mod_geq)
    have d: "unat epoch div 126230400 = Suc ((unat epoch - 126230400) div 126230400)"
      using le by (simp add: le_div_geq)
    show ?thesis
      using "1.IH" [OF True] True
      by (subst last_leapyear_loop.simps) (simp add: u m d TOTAL_SECONDS_PER_LEAP_CYCLE_value)
  next
    case False
    then have "unat epoch < 126230400"
      by (simp add: word_le_nat_alt TOTAL_SECONDS_PER_LEAP_CYCLE_value)
    then show ?thesis
      using False by (subst last_leapyear_loop.simps) simp
  qed
qed

lemma less_12_cases:
  "m < 12 \<Longrightarrow> m = 0 \<or> m = 1 \<or> m = 2 \<or> m = 3 \<or> m = 4 \<or> m = 5 \<or> m = 6 \<or> m = 7 \<or> m = 8
     \<or> m = 9 \<or> m = 10 \<or> m = (11 :: nat)"
  by arith

lemma mdays_values:
  "mdays feb 0 = 31" "mdays feb 1 = feb" "mdays feb 2 = 31" "mdays feb 3 = 30" "mdays feb 4 = 31"
  "mdays feb 5 = 30" "mdays feb 6 = 31" "mdays feb 7 = 31" "mdays feb 8 = 30" "mdays feb 9 = 31"
  "mdays feb 10 = 30" "mdays feb 11 = 31"
  by (simp_all add: mdays_def monthInfo_def)

lemma mdays_Suc_0: "mdays feb (Suc 0) = feb"
  by (simp add: mdays_def)

lemma cum_numeral: "cum feb (numeral k) = cum feb (pred_numeral k) + mdays feb (pred_numeral k)"
  by (simp add: numeral_eq_Suc cum.simps)

lemma cum_1: "cum feb 1 = 31"
  by (simp add: mdays_def monthInfo_def cum.simps)

lemma mdays_bounds: "m < 12 \<Longrightarrow> feb = 28 \<or> feb = 29 \<Longrightarrow> 28 \<le> mdays feb m \<and> mdays feb m \<le> 31"
  by (drule less_12_cases) (auto simp: mdays_values mdays_Suc_0)

lemma cum_values:
  "cum feb 1 = 31" "cum feb 2 = 31 + feb" "cum feb 3 = 62 + feb" "cum feb 4 = 92 + feb"
  "cum feb 5 = 123 + feb" "cum feb 6 = 153 + feb" "cum feb 7 = 184 + feb" "cum feb 8 = 215 + feb"
  "cum feb 9 = 245 + feb" "cum feb 10 = 276 + feb" "cum feb 11 = 306 + feb" "cum feb 12 = 337 + feb"
  by (simp_all add: cum_numeral cum_1 mdays_values mdays_Suc_0 cum.simps)

lemma month_loop_stop:
  "- 2147483648 \<le> I \<Longrightarrow> I < 0 \<Longrightarrow> month_loop f (of_int I) j mon = Inr (of_int I, j, mon)"
  by (subst month_loop.simps) (simp add: word_sless_alt sint_32_of_int)

lemma month_loop_step:
  assumes "m < 12" "0 \<le> I" "I < 2147483648" "feb = 28 \<or> feb = 29"
  shows "month_loop (of_nat feb) (of_int I) (of_nat J) (of_nat m) =
    month_loop (of_nat feb) (of_int (I - int (mdays feb m))) (of_nat (J + mdays feb m)) (of_nat (Suc m))"
proof -
  have s: "- 1 <s (of_int I :: 32 word)"
    using assms by (simp add: word_sless_alt sint_32_of_int)
  have f: "(ucast (of_nat feb :: 16 word) :: 32 word) = of_nat feb"
    using assms(4) by (auto simp: ucast_16_32_of_nat)
  from less_12_cases [OF assms(1)] show ?thesis
    by (elim disjE; subst month_loop.simps)
      (simp_all add: s f mdays_values mdays_Suc_0 monthInfo_days_def monthInfo_def)
qed

lemma month_loop_char:
  assumes feb: "feb = 28 \<or> feb = 29"
  shows "m < 12 \<Longrightarrow> cum feb m \<le> y \<Longrightarrow> y < cum feb 12 \<Longrightarrow>
    \<exists>M. m \<le> M \<and> M < 12 \<and> cum feb M \<le> y \<and> y < cum feb (Suc M) \<and>
      month_loop (of_nat feb) (of_int (int y - int (cum feb m))) (of_nat (cum feb m)) (of_nat m) =
        Inr (of_int (int y - int (cum feb (Suc M))), of_nat (cum feb (Suc M)), of_nat (Suc M))"
proof (induction "11 - m" arbitrary: m)
  case 0
  then have m: "m = 11" by simp
  have y: "y < 400" using "0.prems"(3) feb by (auto simp: cum_values)
  have md: "mdays feb m \<le> 31" using mdays_bounds [OF "0.prems"(1) feb] by simp
  have c: "cum feb 12 = cum feb (Suc m)" using m by simp
  have step: "month_loop (of_nat feb) (of_int (int y - int (cum feb m))) (of_nat (cum feb m)) (of_nat m) =
      month_loop (of_nat feb) (of_int (int y - int (cum feb (Suc m))))
        (of_nat (cum feb (Suc m))) (of_nat (Suc m))"
    using "0.prems" y month_loop_step [of m "int y - int (cum feb m)" feb "cum feb m"] feb
    by (simp add: algebra_simps cum.simps)
  have "month_loop (of_nat feb) (of_int (int y - int (cum feb (Suc m))))
      (of_nat (cum feb (Suc m))) (of_nat (Suc m)) =
      Inr (of_int (int y - int (cum feb (Suc m))), of_nat (cum feb (Suc m)), of_nat (Suc m))"
    using "0.prems"(2,3) md unfolding c by (intro month_loop_stop) (simp_all add: cum.simps)
  with step "0.prems" show ?case
    unfolding c by (intro exI [of _ m]) simp
next
  case (Suc d)
  then have m: "m < 11" by simp
  have y: "y < 400" using Suc.prems(3) feb by (auto simp: cum_values)
  have md: "mdays feb m \<le> 31" using mdays_bounds [OF Suc.prems(1) feb] by simp
  have step: "month_loop (of_nat feb) (of_int (int y - int (cum feb m))) (of_nat (cum feb m)) (of_nat m) =
      month_loop (of_nat feb) (of_int (int y - int (cum feb (Suc m))))
        (of_nat (cum feb (Suc m))) (of_nat (Suc m))"
    using Suc.prems y month_loop_step [of m "int y - int (cum feb m)" feb "cum feb m"] feb
    by (simp add: algebra_simps cum.simps)
  show ?case
  proof (cases "y < cum feb (Suc m)")
    case True
    have "month_loop (of_nat feb) (of_int (int y - int (cum feb (Suc m))))
        (of_nat (cum feb (Suc m))) (of_nat (Suc m)) =
        Inr (of_int (int y - int (cum feb (Suc m))), of_nat (cum feb (Suc m)), of_nat (Suc m))"
      using True md Suc.prems(2) by (intro month_loop_stop) (simp_all add: cum.simps)
    with step True Suc.prems show ?thesis
      by (intro exI [of _ m]) simp
  next
    case False
    have "\<exists>M. Suc m \<le> M \<and> M < 12 \<and> cum feb M \<le> y \<and> y < cum feb (Suc M) \<and>
      month_loop (of_nat feb) (of_int (int y - int (cum feb (Suc m)))) (of_nat (cum feb (Suc m)))
        (of_nat (Suc m)) =
        Inr (of_int (int y - int (cum feb (Suc M))), of_nat (cum feb (Suc M)), of_nat (Suc M))"
      using Suc.hyps(2) m False Suc.prems(3) by (intro Suc.hyps(1)) simp_all
    then obtain M where "Suc m \<le> M" "M < 12" "cum feb M \<le> y" "y < cum feb (Suc M)"
      "month_loop (of_nat feb) (of_int (int y - int (cum feb (Suc m)))) (of_nat (cum feb (Suc m)))
        (of_nat (Suc m)) =
        Inr (of_int (int y - int (cum feb (Suc M))), of_nat (cum feb (Suc M)), of_nat (Suc M))"
      by blast
    with step show ?thesis
      by (intro exI [of _ M]) simp
  qed
qed

lemma unat_ge_E0:
  "EPOCH_AFTER_FIRST_LEAPYEAR \<le> e \<Longrightarrow> 94694400 \<le> unat e"
  by (simp add: word_le_nat_alt EPOCH_AFTER_FIRST_LEAPYEAR_value)

lemma unat_32_less: "unat (e :: 32 word) < 4294967296"
  using unsigned_less [of e, where ?'a = nat] by simp

lemma cycle_decomposition:
  "94694400 \<le> n \<Longrightarrow> n = 94694400 + cycles_of n * 126230400 + remains_of n"
  by (simp add: cycles_of_def remains_of_def)

lemma remains_of_less: "remains_of n < 126230400"
  by (simp add: remains_of_def)

lemma rtc_calculate_last_leapyear_char:
  assumes "EPOCH_AFTER_FIRST_LEAPYEAR \<le> e"
  shows "rtc_calculate_last_leapyear True e =
    (of_nat (94694400 + cycles_of (unat e) * 126230400),
     Some \<lparr>startOfCycle = of_nat (94694400 + cycles_of (unat e) * 126230400),
           remains = of_nat (remains_of (unat e)),
           years = of_nat (years_before (unat e))\<rparr>)"
proof -
  have u: "unat (e - 94694400) = unat e - 94694400"
    using unat_sub [OF assms] by (simp add: EPOCH_AFTER_FIRST_LEAPYEAR_value)
  have "\<not> e < EPOCH_AFTER_FIRST_LEAPYEAR"
    using assms by simp
  then show ?thesis
    by (simp add: rtc_calculate_last_leapyear_def last_leapyear_loop_eq u cycles_of_def
        remains_of_def years_before_def EPOCH_AFTER_FIRST_LEAPYEAR_value)
qed

lemma start_of_cycle_nonzero:
  assumes "EPOCH_AFTER_FIRST_LEAPYEAR \<le> e"
  shows "(of_nat (94694400 + cycles_of (unat e) * 126230400) :: 32 word) \<noteq> 0"
proof -
  have "94694400 + cycles_of (unat e) * 126230400 \<le> unat e"
    using cycle_decomposition [OF unat_ge_E0 [OF assms]] by simp
  then have "94694400 + cycles_of (unat e) * 126230400 < 4294967296"
    using unat_32_less [of e] by simp
  then have "unat (of_nat (94694400 + cycles_of (unat e) * 126230400) :: 32 word) =
      94694400 + cycles_of (unat e) * 126230400"
    by (rule w32_unat_of_nat)
  then show ?thesis
    by (metis add_is_0 unat_0 zero_neq_numeral)
qed

lemma rtc_interpret_split:
  "rtc_interpret epoch timebuf =
    (case rtc_calculate_last_leapyear True epoch of
       (ret, leaps_written) \<Rightarrow>
       if ret = 0 then Inr (NULL, timebuf)
       else
         (case leaps_written of
            None \<Rightarrow> Inl Uninitialised
          | Some leaps \<Rightarrow>
            let remains_years = remains leaps div (365 * 86400) in
            interpret_tail epoch
              (timebuf\<lparr>tm_year := ucast (ucast (years leaps)
                 + (if remains_years > 3 then remains_years - 1 else remains_years) + 1970)\<rparr>)
              (if remains_years > 2 then 29 else 28)
              (if remains_years > 2
               then remains leaps - ((if remains_years > 3 then remains_years - 1 else remains_years) * 86400 * 365)
               else remains leaps - (((if remains_years > 3 then remains_years - 1 else remains_years) - 1) * 86400 * 365)
                      - (86400 * ucast (365 :: 16 word)))))"
  unfolding rtc_interpret_def interpret_tail_def Let_def
  by (auto split: prod.splits option.splits)

lemma of_nat_16_eq_1: "M < 12 \<Longrightarrow> ((of_nat M :: 16 word) = 1) = (M = 1)"
  by (drule less_12_cases) auto

lemma monthInfo_days_of_nat:
  assumes "M < 12" "M \<noteq> 1"
  shows "\<exists>d. monthInfo_days (sint (of_nat M :: 16 word)) = Inr d \<and>
    (ucast d :: 32 word) = of_nat (mdays feb M)"
  using less_12_cases [OF assms(1)] assms(2)
  by (elim disjE) (simp_all add: monthInfo_days_def monthInfo_def mdays_values)

lemma weekday_nat:
  assumes n: "n < 4294967296"
  shows "(ucast (((of_nat n :: 32 word) div 86400 - of_nat n div 604800 * 7 + 4) mod 7) :: 16 word) =
     of_nat ((n div 86400 + 4) mod 7)"
proof -
  have d: "(of_nat n :: 32 word) div 86400 = of_nat (n div 86400)"
    using w32_div_of_nat [of n 86400] n by simp
  have w: "(of_nat n :: 32 word) div 604800 = of_nat (n div 604800)"
    using w32_div_of_nat [of n 604800] n by simp
  have le: "n div 604800 * 7 \<le> n div 86400"
    by (simp add: div_mult2_eq [of n 86400 7, simplified])
  have s: "(of_nat (n div 86400) :: 32 word) - of_nat (n div 604800) * 7 + 4 =
      of_nat (n div 86400 - n div 604800 * 7 + 4)"
    using le by (simp add: of_nat_diff)
  have b: "n div 86400 - n div 604800 * 7 + 4 < 4294967296"
    using n by simp
  have m: "(of_nat (n div 86400 - n div 604800 * 7 + 4) :: 32 word) mod 7 =
      of_nat ((n div 86400 - n div 604800 * 7 + 4) mod 7)"
    using w32_mod_of_nat [OF b, of 7] by simp
  have v: "(n div 86400 - n div 604800 * 7 + 4) mod 7 = (n div 86400 + 4) mod 7"
  proof -
    have "n div 604800 = n div 86400 div 7"
      by (simp add: div_mult2_eq [of n 86400 7, simplified])
    then have "n div 86400 - n div 604800 * 7 = n div 86400 mod 7"
      by (simp add: minus_div_mult_eq_mod)
    then show ?thesis by (simp add: mod_add_left_eq)
  qed
  show ?thesis
    unfolding d w s m v by (rule ucast_32_16_of_nat)
qed

lemma weekday_word:
  "(ucast ((e div 86400 - e div 604800 * 7 + 4) mod 7 :: 32 word) :: 16 word) =
     of_nat ((unat e div 86400 + 4) mod 7)"
  using weekday_nat [OF unat_32_less [of e]] by simp

lemma interpret_tail_char:
  assumes feb: "feb = 28 \<or> feb = 29" and rty: "rty < cum feb 12 * 86400"
  shows "\<exists>M<12. cum feb M \<le> rty div 86400 \<and> rty div 86400 < cum feb (Suc M) \<and>
    interpret_tail e tb (of_nat feb) (of_nat rty) =
      Inr (TIMEBUF,
        tb\<lparr>tm_yday := of_nat (rty div 86400),
           tm_mon := of_nat M,
           tm_mday := of_nat (rty div 86400 - cum feb M + 1),
           tm_hour := of_nat (rty mod 86400 div 3600),
           tm_min := of_nat (rty mod 86400 mod 3600 div 60),
           tm_sec := of_nat (rty mod 86400 mod 3600 mod 60),
           tm_wday := of_nat ((unat e div 86400 + 4) mod 7)\<rparr>)"
proof -
  define yd where "yd = rty div 86400"
  define sod where "sod = rty mod 86400"
  have rty': "rty < 31622400" using rty feb by (auto simp: cum_values)
  have yd: "yd < cum feb 12" using rty by (simp add: yd_def less_mult_imp_div_less)
  have yd': "yd < 366" using yd feb by (auto simp: cum_values)
  have sod': "sod < 86400" by (simp add: sod_def)
  have f1: "(of_nat rty :: 32 word) div 86400 = of_nat yd"
    using w32_div_of_nat [of rty 86400] rty' by (simp add: yd_def)
  have f2: "ucast (of_nat yd :: 32 word) = (of_nat yd :: 16 word)"
    by (rule ucast_32_16_of_nat)
  have f3: "scast (of_nat yd :: 16 word) = (of_nat yd :: 32 word)"
    using yd' by (intro scast_16_32_of_nat) simp
  obtain M where M: "M < 12" "cum feb M \<le> yd" "yd < cum feb (Suc M)"
    and ml: "month_loop (of_nat feb) (of_nat yd) 0 0 =
        Inr (of_int (int yd - int (cum feb (Suc M))), of_nat (cum feb (Suc M)), of_nat M + 1)"
    using month_loop_char [OF feb, of 0 yd] yd by (auto simp: cum.simps(1))
  define md where "md = yd - cum feb M + 1"
  define hh where "hh = sod div 3600"
  define mi where "mi = sod mod 3600 div 60"
  define ss where "ss = sod mod 3600 mod 60"
  have f4: "(of_nat (cum feb (Suc M)) :: 32 word) - of_nat (mdays feb M) = of_nat (cum feb M)"
    by (simp add: cum.simps)
  have f5: "(ucast (of_nat feb :: 16 word) :: 32 word) = of_nat feb"
    using feb by (auto simp: ucast_16_32_of_nat)
  have le: "cum feb M * 86400 \<le> rty"
    using M(2) by (simp add: yd_def less_eq_div_iff_mult_less_eq)
  have "(of_nat rty :: 32 word) - of_nat (cum feb M) * 86400 = of_nat (rty - cum feb M * 86400)"
    using le by (simp add: of_nat_diff)
  moreover have "(of_nat (rty - cum feb M * 86400) :: 32 word) div 86400 =
      of_nat ((rty - cum feb M * 86400) div 86400)"
    using w32_div_of_nat [of "rty - cum feb M * 86400" 86400] rty' by simp
  moreover have "(rty - cum feb M * 86400) div 86400 = yd - cum feb M"
    by (simp add: yd_def div_mult_self_is_m)
  ultimately have f6: "((of_nat rty :: 32 word) - of_nat (cum feb M) * 86400) div 86400 =
      of_nat (yd - cum feb M)"
    by simp
  have "(of_nat (yd - cum feb M) + 1 :: 32 word) = of_nat md"
    by (simp add: md_def)
  then have f7: "(ucast (of_nat (yd - cum feb M) + 1 :: 32 word) :: 16 word) = of_nat md"
    by (simp only: ucast_32_16_of_nat)
  have "yd * 86400 \<le> rty" by (simp add: yd_def)
  then have "(of_nat rty :: 32 word) - of_nat yd * 86400 = of_nat (rty - yd * 86400)"
    by (simp add: of_nat_diff)
  moreover have "rty - yd * 86400 = sod"
    by (simp add: yd_def sod_def minus_div_mult_eq_mod)
  ultimately have f8: "(of_nat rty :: 32 word) - of_nat yd * 86400 = of_nat sod"
    by simp
  have f9: "c_sdiv (of_nat sod :: 32 word) 3600 = of_nat hh"
    using c_sdiv_of_nat [of sod 3600] sod' by (simp add: hh_def)
  have f10: "c_smod (of_nat sod :: 32 word) 3600 = of_nat (sod mod 3600)"
    using c_smod_of_nat [of sod 3600] sod' by simp
  have f11: "c_sdiv (of_nat (sod mod 3600) :: 32 word) 60 = of_nat mi"
    using c_sdiv_of_nat [of "sod mod 3600" 60] by (simp add: mi_def)
  have f12: "c_smod (of_nat (sod mod 3600) :: 32 word) 60 = of_nat ss"
    using c_smod_of_nat [of "sod mod 3600" 60] by (simp add: ss_def)
  have main: "interpret_tail e tb (of_nat feb) (of_nat rty) =
      Inr (TIMEBUF,
        tb\<lparr>tm_yday := of_nat yd, tm_mon := of_nat M, tm_mday := of_nat md,
           tm_hour := of_nat hh, tm_min := of_nat mi, tm_sec := of_nat ss,
           tm_wday := of_nat ((unat e div 86400 + 4) mod 7)\<rparr>)"
  proof (cases "M = 1")
    case True
    have t: "(of_nat M :: 16 word) = 1" using True by simp
    have f4': "(of_nat (cum feb (Suc M)) :: 32 word) - of_nat feb = of_nat (cum feb M)"
      using f4 True by (simp add: mdays_Suc_0)
    show ?thesis
      unfolding interpret_tail_def Let_def
      by (simp add: f1 f2 f3 ml t f4' f5 f6 f7 f8 f9 f10 f11 f12 ucast_32_16_of_nat weekday_word)
  next
    case False
    obtain d where d: "monthInfo_days (sint (of_nat M :: 16 word)) = Inr d"
        "(ucast d :: 32 word) = of_nat (mdays feb M)"
      using monthInfo_days_of_nat [OF M(1) False] by blast
    show ?thesis
      unfolding interpret_tail_def Let_def
      using False
      by (simp add: f1 f2 f3 ml of_nat_16_eq_1 [OF M(1)] d f4 f5 f6 f7 f8 f9 f10 f11 f12
          ucast_32_16_of_nat weekday_word)
  qed
  show ?thesis
    using M main unfolding yd_def sod_def md_def hh_def mi_def ss_def
    by (intro exI [of _ M]) simp
qed

lemma cycles_of_le: "n < 4294967296 \<Longrightarrow> cycles_of n \<le> 33"
  by (simp add: cycles_of_def)

lemma year_in_cycle_cases:
  "(year_in_cycle n = 0 \<and> remains_of n div 31536000 = 0) \<or>
   (year_in_cycle n = 1 \<and> remains_of n div 31536000 = 1) \<or>
   (year_in_cycle n = 2 \<and> remains_of n div 31536000 = 2) \<or>
   (year_in_cycle n = 3 \<and> remains_of n div 31536000 = 3) \<or>
   (year_in_cycle n = 3 \<and> remains_of n div 31536000 = 4)"
proof -
  have "remains_of n div 31536000 \<le> 4"
    using remains_of_less [of n] by arith
  then show ?thesis
    unfolding year_in_cycle_def by arith
qed

lemma div_31536000_cases:
  "(r :: nat) div 31536000 = 0 \<Longrightarrow> r < 31536000"
  "(r :: nat) div 31536000 = 1 \<Longrightarrow> 31536000 \<le> r \<and> r < 63072000"
  "(r :: nat) div 31536000 = 2 \<Longrightarrow> 63072000 \<le> r \<and> r < 94608000"
  "(r :: nat) div 31536000 = 3 \<Longrightarrow> 94608000 \<le> r \<and> r < 126144000"
  "(r :: nat) div 31536000 = 4 \<Longrightarrow> 126144000 \<le> r \<and> r < 157680000"
  by arith+

lemma secs_in_year_less: "secs_in_year n < cum (feb_of n) 12 * 86400"
  using year_in_cycle_cases [of n] remains_of_less [of n]
  unfolding secs_in_year_def feb_of_def
  by (elim disjE conjE) (auto simp: cum_values dest: div_31536000_cases)

lemma remains_split: "remains_of n = year_in_cycle n * 31536000 + secs_in_year n"
  using year_in_cycle_cases [of n]
  unfolding secs_in_year_def
  by (elim disjE conjE) (auto dest: div_31536000_cases)

lemma rtc_interpret_head:
  assumes e: "EPOCH_AFTER_FIRST_LEAPYEAR \<le> e"
  shows "rtc_interpret e tb =
    interpret_tail e (tb\<lparr>tm_year := of_nat (year_of (unat e))\<rparr>)
      (of_nat (feb_of (unat e))) (of_nat (secs_in_year (unat e)))"
proof -
  define n where "n = unat e"
  define leaps where "leaps = \<lparr>startOfCycle = (of_nat (94694400 + cycles_of n * 126230400) :: 32 word),
           remains = (of_nat (remains_of n) :: 32 word),
           years = (of_nat (years_before n) :: 16 word)\<rparr>"
  have n: "n < 4294967296" unfolding n_def by (rule unat_32_less)
  have ll: "rtc_calculate_last_leapyear True e =
      (of_nat (94694400 + cycles_of n * 126230400), Some leaps)"
    unfolding leaps_def n_def by (rule rtc_calculate_last_leapyear_char [OF e])
  have nz: "((of_nat (94694400 + cycles_of n * 126230400) :: 32 word) = 0) = False"
    using start_of_cycle_nonzero [OF e] by (simp add: n_def)
  have r: "remains leaps = of_nat (remains_of n)" by (simp add: leaps_def)
  have y: "years leaps = of_nat (years_before n)" by (simp add: leaps_def)
  have yb: "years_before n < 200"
    using cycles_of_le [OF n] by (simp add: years_before_def)
  have q: "remains leaps div (365 * 86400) = of_nat (remains_of n div 31536000)"
    using w32_div_of_nat [of "remains_of n" 31536000] remains_of_less [of n] by (simp add: r)
  have uy: "(ucast (years leaps) :: 32 word) = of_nat (years_before n)"
    using yb by (simp add: y ucast_16_32_of_nat)
  have Y: "ucast (ucast (years leaps)
      + (if remains leaps div (365 * 86400) > 3 then remains leaps div (365 * 86400) - 1
         else remains leaps div (365 * 86400)) + 1970) = (of_nat (year_of n) :: 16 word)"
    unfolding q uy
    using year_in_cycle_cases [of n] ucast_32_16_of_nat [of "year_of n"]
    by (elim disjE conjE) (simp_all add: year_of_def)
  have F: "(if remains leaps div (365 * 86400) > 2 then 29 else 28) = (of_nat (feb_of n) :: 16 word)"
    unfolding q using year_in_cycle_cases [of n]
    by (elim disjE conjE) (simp_all add: feb_of_def)
  have R: "(if remains leaps div (365 * 86400) > 2
       then remains leaps - ((if remains leaps div (365 * 86400) > 3
              then remains leaps div (365 * 86400) - 1
              else remains leaps div (365 * 86400)) * 86400 * 365)
       else remains leaps - (((if remains leaps div (365 * 86400) > 3
              then remains leaps div (365 * 86400) - 1
              else remains leaps div (365 * 86400)) - 1) * 86400 * 365)
              - (86400 * ucast (365 :: 16 word))) = (of_nat (secs_in_year n) :: 32 word)"
  proof -
    have q': "(of_nat (remains_of n) :: 32 word) div (365 * 86400) = of_nat (remains_of n div 31536000)"
      using q by (simp add: r)
    have rs: "(of_nat (remains_of n) :: 32 word) =
        of_nat (year_in_cycle n) * 31536000 + of_nat (secs_in_year n)"
      using arg_cong [OF remains_split [of n], of "of_nat :: nat \<Rightarrow> 32 word"] by simp
    show ?thesis
      unfolding r q' using year_in_cycle_cases [of n]
      by (elim disjE conjE) (simp_all add: rs)
  qed
  show ?thesis
    unfolding n_def [symmetric]
    by (simp only: rtc_interpret_split ll prod.case nz if_False option.case Let_def Y F R)
qed

lemma rtc_interpret_char:
  assumes e: "EPOCH_AFTER_FIRST_LEAPYEAR \<le> e"
  shows "\<exists>M<12. cum (feb_of (unat e)) M \<le> secs_in_year (unat e) div 86400 \<and>
    secs_in_year (unat e) div 86400 < cum (feb_of (unat e)) (Suc M) \<and>
    rtc_interpret e tb =
      Inr (TIMEBUF,
        tb\<lparr>tm_year := of_nat (year_of (unat e)),
           tm_yday := of_nat (secs_in_year (unat e) div 86400),
           tm_mon := of_nat M,
           tm_mday := of_nat (secs_in_year (unat e) div 86400 - cum (feb_of (unat e)) M + 1),
           tm_hour := of_nat (secs_in_year (unat e) mod 86400 div 3600),
           tm_min := of_nat (secs_in_year (unat e) mod 86400 mod 3600 div 60),
           tm_sec := of_nat (secs_in_year (unat e) mod 86400 mod 3600 mod 60),
           tm_wday := of_nat ((unat e div 86400 + 4) mod 7)\<rparr>)"
proof -
  have "feb_of (unat e) = 28 \<or> feb_of (unat e) = 29"
    by (simp add: feb_of_def)
  from interpret_tail_char [OF this secs_in_year_less, of e "tb\<lparr>tm_year := of_nat (year_of (unat e))\<rparr>"]
  show ?thesis
    unfolding rtc_interpret_head [OF e] .
qed

lemma epoch_cycle_loop_eq:
  "unat (year - latest) = 4 * q + ry \<Longrightarrow> ry < 4 \<Longrightarrow>
    epoch_cycle_loop year ep latest = (ep + of_nat q * 126230400, latest + 4 * of_nat q)"
proof (induction q arbitrary: ep latest)
  case 0
  then have "\<not> 4 \<le> year - latest"
    by (simp add: word_le_nat_alt)
  then show ?case
    by (subst epoch_cycle_loop.simps) simp
next
  case (Suc q)
  from Suc.prems have le: "4 \<le> year - latest"
    by (simp add: word_le_nat_alt)
  have "unat (year - latest - 4) = unat (year - latest) - unat (4 :: 16 word)"
    using le by (rule unat_sub)
  then have "unat (year - (latest + 4)) = 4 * q + ry"
    using Suc.prems by (simp add: diff_diff_eq [symmetric])
  from Suc.IH [OF this Suc.prems(2)] le show ?case
    by (subst epoch_cycle_loop.simps)
      (simp add: TOTAL_SECONDS_PER_LEAP_CYCLE_value algebra_simps)
qed

lemma epoch_year_loop_eq:
  "unat (year - latest) = q \<Longrightarrow>
    epoch_year_loop year ep latest = (ep + of_nat q * 31536000, latest + of_nat q)"
proof (induction q arbitrary: ep latest)
  case 0
  then have "\<not> 0 < year - latest"
    by (simp add: word_less_nat_alt)
  then show ?case
    by (subst epoch_year_loop.simps) simp
next
  case (Suc q)
  from Suc.prems have lt: "0 < year - latest"
    by (simp add: word_less_nat_alt)
  then have le: "1 \<le> year - latest"
    by (simp add: word_less_nat_alt word_le_nat_alt)
  have "unat (year - latest - 1) = unat (year - latest) - unat (1 :: 16 word)"
    using le by (rule unat_sub)
  then have "unat (year - (latest + 1)) = q"
    using Suc.prems by (simp add: diff_diff_eq [symmetric])
  from Suc.IH [OF this] lt show ?case
    by (subst epoch_year_loop.simps) (simp add: algebra_simps)
qed

lemma yday_loop_stop: "\<not> month < mon \<Longrightarrow> yday_loop mon is_leap month yday = Inr (month, yday)"
  by (subst yday_loop.simps) simp

lemma rtc_epoch_char:
  assumes year: "tm_year t = of_nat (1973 + 4 * k + ry)" "k \<le> 33" "ry < 4"
    and yday: "tm_yday t = of_nat yd" "yd < 366"
    and first: "yd = 0 \<Longrightarrow> tm_mon t = 0 \<and> tm_mday t = 1"
    and hour: "tm_hour t = of_nat hh" "hh < 24"
    and minute: "tm_min t = of_nat mi" "mi < 60"
    and second: "tm_sec t = of_nat ss" "ss < 60"
  shows "rtc_epoch (Some t) =
    Inr (of_nat (94694400 + k * 126230400 + ry * 31536000 + yd * 86400 + hh * 3600 + mi * 60 + ss),
         Some t)"
proof -
  define L1 :: "16 word" where "L1 = 1973 + 4 * of_nat k"
  define L2 :: "16 word" where "L2 = L1 + of_nat ry"
  have y1: "\<not> tm_year t <s 1973"
    using year sint_16_of_nat [of "1973 + 4 * k + ry"] by (simp add: word_sless_alt)
  have "tm_year t - 1973 = of_nat (4 * k + ry)"
    by (simp add: year(1))
  then have "unat (tm_year t - 1973) = 4 * k + ry"
    using year(2,3) by (simp only: w16_unat_of_nat)
  from epoch_cycle_loop_eq [OF this year(3)]
  have c1: "epoch_cycle_loop (tm_year t) EPOCH_AFTER_FIRST_LEAPYEAR 1973 =
      (94694400 + of_nat k * 126230400, L1)"
    by (simp add: L1_def EPOCH_AFTER_FIRST_LEAPYEAR_value)
  have d1: "tm_year t - L1 = of_nat ry"
    by (simp add: year(1) L1_def)
  then have "unat (tm_year t - L1) = ry"
    using year(3) by (simp only: w16_unat_of_nat)
  from epoch_year_loop_eq [OF this]
  have c2: "epoch_year_loop (tm_year t) (94694400 + of_nat k * 126230400) L1 =
      (94694400 + of_nat k * 126230400 + of_nat ry * 31536000, L2)"
    by (simp add: L2_def)
  have y2: "\<not> 366 <s tm_yday t"
    using yday sint_16_of_nat [of yd] by (simp add: word_sless_alt)
  have y3: "(tm_yday t = 0) = (yd = 0)"
    using yday w16_unat_of_nat [of yd] by (auto simp: unat_eq_0 [symmetric] simp del: unat_eq_0)
  have s1: "(scast (tm_yday t) :: 32 word) = of_nat yd"
    using yday by (simp add: scast_16_32_of_nat)
  have s2: "(scast (tm_hour t) :: 32 word) = of_nat hh"
    using hour by (simp add: scast_16_32_of_nat)
  have s3: "(scast (tm_min t) :: 32 word) = of_nat mi"
    using minute by (simp add: scast_16_32_of_nat)
  have s4: "(scast (tm_sec t) :: 32 word) = of_nat ss"
    using second by (simp add: scast_16_32_of_nat)
  show ?thesis
  proof (cases "yd = 0")
    case True
    with first have f: "tm_mon t = 0" "tm_mday t = 1" by simp_all
    have z: "tm_yday t = 0" using True y3 by simp
    have c: "rtc_calculate_yday t ep il = Inr 0" for ep il
      by (simp add: rtc_calculate_yday_def f yday_loop_stop word_sless_alt)
    have u: "t\<lparr>tm_yday := 0\<rparr> = t" using z by simp
    have p: "0 <s (1 :: 16 word)" "\<not> 366 <s (0 :: 16 word)" by (simp_all add: word_sless_alt)
    show ?thesis
      unfolding rtc_epoch_def Let_def
      using z True
      by (simp add: y1 c1 c2 f c u p s2 s3 s4)
  next
    case False
    then have z: "tm_yday t \<noteq> 0" using y3 by simp
    show ?thesis
      unfolding rtc_epoch_def Let_def
      using z by (simp add: y1 c1 c2 y2 s1 s2 s3 s4)
  qed
qed

lemma cum_eq_0:
  assumes "M < 12" "cum feb M = 0"
  shows "M = 0"
  using less_12_cases [OF assms(1)] assms(2) cum_1 [of feb]
  by (auto simp: cum_values)

lemma epoch_decomposition:
  assumes "94694400 \<le> n"
  shows "n = 94694400 + cycles_of n * 126230400 + year_in_cycle n * 31536000
    + secs_in_year n div 86400 * 86400 + secs_in_year n mod 86400 div 3600 * 3600
    + secs_in_year n mod 86400 mod 3600 div 60 * 60 + secs_in_year n mod 86400 mod 3600 mod 60"
proof -
  have "secs_in_year n mod 86400 = secs_in_year n mod 86400 div 3600 * 3600
      + secs_in_year n mod 86400 mod 3600 div 60 * 60 + secs_in_year n mod 86400 mod 3600 mod 60"
    by (simp add: add.assoc)
  moreover have "secs_in_year n = secs_in_year n div 86400 * 86400 + secs_in_year n mod 86400"
    by simp
  ultimately show ?thesis
    using cycle_decomposition [OF assms] remains_split [of n] by linarith
qed

lemma year_in_cycle_less: "year_in_cycle n < 4"
  by (simp add: year_in_cycle_def)

lemma yday_loop_step:
  assumes "m < M" "M \<le> 12"
  shows "yday_loop (of_nat M) il (of_nat m) Y =
    yday_loop (of_nat M) il (of_nat (Suc m)) (Y + of_nat (mdays (if il = 0 then 28 else 29) m))"
proof -
  have "unat (of_nat m :: 16 word) = m" "unat (of_nat M :: 16 word) = M"
    using assms by (simp_all add: w16_unat_of_nat)
  then have lt: "(of_nat m :: 16 word) < of_nat M"
    using assms(1) by (simp add: word_less_nat_alt)
  have "m < 12" using assms by simp
  from less_12_cases [OF this] show ?thesis
    by (elim disjE; subst yday_loop.simps; insert lt)
      (simp_all add: mdays_values mdays_Suc_0 monthInfo_days_def monthInfo_def)
qed

lemma yday_loop_char:
  "m \<le> M \<Longrightarrow> M \<le> 12 \<Longrightarrow> feb = (if il = 0 then 28 else 29) \<Longrightarrow>
    yday_loop (of_nat M) il (of_nat m) (of_nat (c + cum feb m)) =
      Inr (of_nat M, of_nat (c + cum feb M))"
proof (induction "M - m" arbitrary: m)
  case 0
  then have "m = M" by simp
  then show ?case by (simp add: yday_loop_stop)
next
  case (Suc d)
  then have lt: "m < M" by simp
  have "yday_loop (of_nat M) il (of_nat m) (of_nat (c + cum feb m)) =
      yday_loop (of_nat M) il (of_nat (Suc m)) (of_nat (c + cum feb m) + of_nat (mdays feb m))"
    unfolding Suc.prems(3) by (rule yday_loop_step [OF lt Suc.prems(2)])
  also have "of_nat (c + cum feb m) + of_nat (mdays feb m) = (of_nat (c + cum feb (Suc m)) :: 16 word)"
    by (simp add: cum.simps)
  also have "yday_loop (of_nat M) il (of_nat (Suc m)) (of_nat (c + cum feb (Suc m))) =
      Inr (of_nat M, of_nat (c + cum feb M))"
    using Suc.hyps(2) lt Suc.prems(2,3) by (intro Suc.hyps(1)) simp_all
  finally show ?case .
qed

lemma rtc_calculate_yday_char:
  assumes "tm_mon t = of_nat M" "M < 12" "tm_mday t = of_nat md" "0 < md" "md \<le> 31"
  shows "rtc_calculate_yday t ep il = Inr (of_nat (cum (if il = 0 then 28 else 29) M + md - 1))"
proof -
  have l: "yday_loop (of_nat M) il 0 0 = Inr (of_nat M, of_nat (cum (if il = 0 then 28 else 29) M))"
    using yday_loop_char [of 0 M "if il = 0 then 28 else 29" il 0] assms(2)
    by (simp add: cum.simps)
  have p: "0 <s (of_nat md :: 16 word)"
    using assms(4,5) sint_16_of_nat [of md] by (simp add: word_sless_alt)
  have "(of_nat (cum (if il = 0 then 28 else 29) M + md - 1) :: 16 word) =
      of_nat (cum (if il = 0 then 28 else 29) M) + (of_nat md - 1)"
    using assms(4) by (simp add: of_nat_diff)
  then show ?thesis
    by (simp add: rtc_calculate_yday_def assms(1,3) l p)
qed

lemma leap_year_of: "(int (year_of n) mod 4 = 0) = (year_in_cycle n = 3)"
  using year_in_cycle_less [of n]
  unfolding year_of_def years_before_def by presburger
lemma rtc_interpret_wday:
  assumes e: "EPOCH_AFTER_FIRST_LEAPYEAR \<le> e"
  shows "\<exists>t. rtc_interpret e timebuf = Inr (TIMEBUF, t) \<and>
    sint (tm_wday t) = (uint e div 86400 + 4) mod 7"
proof -
  obtain t where "rtc_interpret e timebuf = Inr (TIMEBUF, t)"
    "tm_wday t = of_nat ((unat e div 86400 + 4) mod 7)"
    using rtc_interpret_char [OF e, of timebuf] by auto
  moreover have "sint (of_nat ((unat e div 86400 + 4) mod 7) :: 16 word) =
      int ((unat e div 86400 + 4) mod 7)"
    by (intro sint_16_of_nat) simp
  moreover have "int ((unat e div 86400 + 4) mod 7) = (uint e div 86400 + 4) mod 7"
    unfolding uint_nat by (simp only: zdiv_int zmod_int of_nat_add of_nat_numeral)
  ultimately show ?thesis by auto
qed

lemma rtc_calculate_yday_indep:
  "rtc_calculate_yday (t\<lparr>tm_yday := y\<rparr>) ep il = rtc_calculate_yday t ep' il"
  unfolding rtc_calculate_yday_def
  by (cases "yday_loop (tm_mon t) il 0 0") auto

lemma rtc_calculate_yday_returns:
  assumes "unat (tm_mon t) \<le> 12"
  shows "\<exists>y. rtc_calculate_yday t ep il = Inr y"
proof -
  have "yday_loop (of_nat (unat (tm_mon t))) il (of_nat 0)
      (of_nat (0 + cum (if il = 0 then 28 else 29) 0)) =
      Inr (of_nat (unat (tm_mon t)),
        of_nat (0 + cum (if il = 0 then 28 else 29) (unat (tm_mon t))))"
    using assms by (intro yday_loop_char) simp_all
  then show ?thesis
    by (simp add: rtc_calculate_yday_def cum.simps)
qed
lemma gregorian_leap_before_2100:
  "1973 \<le> y \<Longrightarrow> y \<le> 2099 \<Longrightarrow> gregorian_leap y = (y mod 4 = 0)"
  unfolding gregorian_leap_def by presburger

subsection \<open>Round trip, field ranges, weekday, and the frame of the inverse\<close>

text \<open>
  Claim C1.  For every epoch from \<^verbatim>\<open>EPOCH_AFTER_FIRST_LEAPYEAR\<close> on, up to the largest value of
  the 32-bit counter, \<^verbatim>\<open>rtc_interpret\<close> returns its buffer, and \<^verbatim>\<open>rtc_epoch\<close> applied to that
  buffer returns the epoch again and leaves the buffer as it is.
\<close>

theorem rtc_epoch_inverts_rtc_interpret:
  assumes e: "EPOCH_AFTER_FIRST_LEAPYEAR \<le> e"
  shows "\<exists>t. rtc_interpret e timebuf = Inr (TIMEBUF, t) \<and> rtc_epoch (Some t) = Inr (e, Some t)"
proof -
  define n where "n = unat e"
  define yd where "yd = secs_in_year n div 86400"
  define sod where "sod = secs_in_year n mod 86400"
  obtain M where M: "M < 12" "cum (feb_of n) M \<le> yd"
    and ri: "rtc_interpret e timebuf =
      Inr (TIMEBUF,
        timebuf\<lparr>tm_year := of_nat (year_of n),
           tm_yday := of_nat yd,
           tm_mon := of_nat M,
           tm_mday := of_nat (yd - cum (feb_of n) M + 1),
           tm_hour := of_nat (sod div 3600),
           tm_min := of_nat (sod mod 3600 div 60),
           tm_sec := of_nat (sod mod 3600 mod 60),
           tm_wday := of_nat ((n div 86400 + 4) mod 7)\<rparr>)"
    using rtc_interpret_char [OF e, of timebuf] unfolding n_def yd_def sod_def by blast
  define t where "t = timebuf\<lparr>tm_year := of_nat (year_of n),
           tm_yday := of_nat yd,
           tm_mon := of_nat M,
           tm_mday := of_nat (yd - cum (feb_of n) M + 1),
           tm_hour := of_nat (sod div 3600),
           tm_min := of_nat (sod mod 3600 div 60),
           tm_sec := of_nat (sod mod 3600 mod 60),
           tm_wday := of_nat ((n div 86400 + 4) mod 7)\<rparr>"
  have n: "94694400 \<le> n" "n < 4294967296"
    unfolding n_def using unat_ge_E0 [OF e] unat_32_less [of e] by simp_all
  have yd: "yd < 366"
    using secs_in_year_less [of n] unfolding yd_def
    by (auto simp: feb_of_def cum_values less_mult_imp_div_less split: if_splits)
  have sod: "sod < 86400" by (simp add: sod_def)
  have "rtc_epoch (Some t) =
    Inr (of_nat (94694400 + cycles_of n * 126230400 + year_in_cycle n * 31536000 + yd * 86400
          + sod div 3600 * 3600 + sod mod 3600 div 60 * 60 + sod mod 3600 mod 60), Some t)"
  proof (rule rtc_epoch_char)
    show "tm_year t = of_nat (1973 + 4 * cycles_of n + year_in_cycle n)"
      by (simp add: t_def year_of_def years_before_def)
    show "cycles_of n \<le> 33" using n(2) by (rule cycles_of_le)
    show "year_in_cycle n < 4" by (rule year_in_cycle_less)
    show "tm_yday t = of_nat yd" by (simp add: t_def)
    show "yd < 366" by (rule yd)
    show "tm_mon t = 0 \<and> tm_mday t = 1" if "yd = 0"
    proof -
      from that M have "M = 0" by (intro cum_eq_0 [of M "feb_of n"]) simp_all
      with that show ?thesis by (simp add: t_def cum.simps)
    qed
    show "tm_hour t = of_nat (sod div 3600)" by (simp add: t_def)
    show "sod div 3600 < 24" using sod by simp
    show "tm_min t = of_nat (sod mod 3600 div 60)" by (simp add: t_def)
    show "sod mod 3600 div 60 < 60" by simp
    show "tm_sec t = of_nat (sod mod 3600 mod 60)" by (simp add: t_def)
    show "sod mod 3600 mod 60 < 60" by simp
  qed
  also have "94694400 + cycles_of n * 126230400 + year_in_cycle n * 31536000 + yd * 86400
          + sod div 3600 * 3600 + sod mod 3600 div 60 * 60 + sod mod 3600 mod 60 = n"
    unfolding yd_def sod_def by (rule epoch_decomposition [OF n(1), symmetric])
  also have "of_nat n = e" by (simp add: n_def)
  finally have "rtc_epoch (Some t) = Inr (e, Some t)" .
  with ri show ?thesis
    unfolding t_def [symmetric] by blast
qed

theorem rtc_epoch_inverts_rtc_interpret_witness:
  "EPOCH_AFTER_FIRST_LEAPYEAR \<le> 1000000000 \<and>
   (\<exists>t. rtc_interpret 1000000000 timebuf_zero = Inr (TIMEBUF, t) \<and>
     rtc_epoch (Some t) = Inr (1000000000, Some t))"
  using rtc_epoch_inverts_rtc_interpret [of 1000000000 timebuf_zero] by (simp add: EPOCH_AFTER_FIRST_LEAPYEAR_value)

text \<open>
  Claim C8, amended.  For every epoch from \<^verbatim>\<open>EPOCH_AFTER_FIRST_LEAPYEAR\<close> on, \<^verbatim>\<open>rtc_interpret\<close> returns
  its buffer with: the year at least 1973; the month in 0..11; the day at least 1, at most 31
  and at most the length of the month, where February has 29 days in the years divisible
  by 4 (the leap years of the library) and 28 otherwise; the day of the year in 0..364, or
  0..365 in a leap year, and equal to what \<^verbatim>\<open>rtc_calculate_yday\<close> computes from the month and
  the day; the hour in 0..23, the minute and the second in 0..59; the day of the week in 0..6
  and equal to \<open>(epoch div 86400 + 4) mod 7\<close>, a function of the epoch alone.  \<^verbatim>\<open>tm_isdst\<close> is
  not written.  For every such epoch before 2100-03-01T00:00:00Z (4107542400) the same holds
  with the Gregorian leap years in place of the years divisible by 4: the length of
  February, the range of the day of the year, and the value that \<^verbatim>\<open>rtc_calculate_yday\<close>
  computes when it is told the Gregorian leap status.
\<close>

theorem rtc_interpret_fields_in_range:
  assumes e: "EPOCH_AFTER_FIRST_LEAPYEAR \<le> e"
  shows "\<exists>t. rtc_interpret e timebuf = Inr (TIMEBUF, t) \<and>
    1973 \<le> sint (tm_year t) \<and>
    0 \<le> sint (tm_mon t) \<and> sint (tm_mon t) \<le> 11 \<and>
    1 \<le> sint (tm_mday t) \<and> sint (tm_mday t) \<le> 31 \<and>
    sint (tm_mday t) \<le>
      (if tm_mon t = 1 then (if sint (tm_year t) mod 4 = 0 then 29 else 28)
       else uint (days (monthInfo ! unat (tm_mon t)))) \<and>
    0 \<le> sint (tm_yday t) \<and>
    sint (tm_yday t) \<le> (if sint (tm_year t) mod 4 = 0 then 365 else 364) \<and>
    rtc_calculate_yday t latest_epoch (if sint (tm_year t) mod 4 = 0 then 1 else 0)
      = Inr (tm_yday t) \<and>
    0 \<le> sint (tm_hour t) \<and> sint (tm_hour t) \<le> 23 \<and>
    0 \<le> sint (tm_min t) \<and> sint (tm_min t) \<le> 59 \<and>
    0 \<le> sint (tm_sec t) \<and> sint (tm_sec t) \<le> 59 \<and>
    0 \<le> sint (tm_wday t) \<and> sint (tm_wday t) \<le> 6 \<and>
    sint (tm_wday t) = (uint e div 86400 + 4) mod 7 \<and>
    tm_isdst t = tm_isdst timebuf \<and>
    (e < 4107542400 \<longrightarrow>
      sint (tm_mday t) \<le>
        (if tm_mon t = 1 then (if gregorian_leap (sint (tm_year t)) then 29 else 28)
         else uint (days (monthInfo ! unat (tm_mon t)))) \<and>
      sint (tm_yday t) \<le> (if gregorian_leap (sint (tm_year t)) then 365 else 364) \<and>
      rtc_calculate_yday t latest_epoch (if gregorian_leap (sint (tm_year t)) then 1 else 0)
        = Inr (tm_yday t))"
proof -
  define n where "n = unat e"
  define feb where "feb = feb_of n"
  define yd where "yd = secs_in_year n div 86400"
  define sod where "sod = secs_in_year n mod 86400"
  obtain M where M: "M < 12" "cum feb M \<le> yd" "yd < cum feb (Suc M)"
    and ri: "rtc_interpret e timebuf =
      Inr (TIMEBUF,
        timebuf\<lparr>tm_year := of_nat (year_of n),
           tm_yday := of_nat yd,
           tm_mon := of_nat M,
           tm_mday := of_nat (yd - cum feb M + 1),
           tm_hour := of_nat (sod div 3600),
           tm_min := of_nat (sod mod 3600 div 60),
           tm_sec := of_nat (sod mod 3600 mod 60),
           tm_wday := of_nat ((n div 86400 + 4) mod 7)\<rparr>)"
    using rtc_interpret_char [OF e, of timebuf] unfolding n_def yd_def sod_def feb_def by blast
  define md where "md = yd - cum feb M + 1"
  define t where "t = timebuf\<lparr>tm_year := of_nat (year_of n),
           tm_yday := of_nat yd,
           tm_mon := of_nat M,
           tm_mday := of_nat md,
           tm_hour := of_nat (sod div 3600),
           tm_min := of_nat (sod mod 3600 div 60),
           tm_sec := of_nat (sod mod 3600 mod 60),
           tm_wday := of_nat ((n div 86400 + 4) mod 7)\<rparr>"
  have n: "94694400 \<le> n" "n < 4294967296"
    unfolding n_def using unat_ge_E0 [OF e] unat_32_less [of e] by simp_all
  have feb: "feb = 28 \<or> feb = 29" by (simp add: feb_def feb_of_def)
  have feb_leap: "feb = (if year_in_cycle n = 3 then 29 else 28)"
    by (simp add: feb_def feb_of_def)
  have yr: "1973 \<le> year_of n" "year_of n < 32768"
    using cycles_of_le [OF n(2)] year_in_cycle_less [of n]
    by (simp_all add: year_of_def years_before_def)
  have yd: "yd < cum feb 12"
    using secs_in_year_less [of n] by (simp add: yd_def feb_def less_mult_imp_div_less)
  have sod: "sod < 86400" by (simp add: sod_def)
  have md12: "1 \<le> md" "md \<le> mdays feb M"
    using M by (simp_all add: md_def cum.simps)
  have md3: "md \<le> 31"
    using md12(2) mdays_bounds [OF M(1) feb] by simp
  have md4: "cum feb M + md - 1 = yd"
    using M(2) by (simp add: md_def)
  note md = md12 md3 md4
  have sy: "sint (tm_year t) = int (year_of n)"
    using yr by (simp add: t_def sint_16_of_nat)
  have leap: "(sint (tm_year t) mod 4 = 0) = (year_in_cycle n = 3)"
    by (simp only: sy leap_year_of)
  have smon: "sint (tm_mon t) = int M" "unat (tm_mon t) = M" "(tm_mon t = 1) = (M = 1)"
    using M(1) by (simp_all add: t_def sint_16_of_nat w16_unat_of_nat of_nat_16_eq_1)
  have smday: "sint (tm_mday t) = int md"
    using md(3) by (simp add: t_def sint_16_of_nat)
  have syday: "sint (tm_yday t) = int yd"
    using yd feb by (auto simp: t_def sint_16_of_nat cum_values)
  have shour: "sint (tm_hour t) = int (sod div 3600)"
    using sod by (simp add: t_def sint_16_of_nat)
  have smin: "sint (tm_min t) = int (sod mod 3600 div 60)"
    by (simp add: t_def sint_16_of_nat)
  have ssec: "sint (tm_sec t) = int (sod mod 3600 mod 60)"
    by (simp add: t_def sint_16_of_nat)
  have swday: "sint (tm_wday t) = int ((n div 86400 + 4) mod 7)"
    by (simp add: t_def sint_16_of_nat)
  have dim: "(if tm_mon t = 1 then (if sint (tm_year t) mod 4 = 0 then 29 else 28)
       else uint (days (monthInfo ! unat (tm_mon t)))) = int (mdays feb M)"
    unfolding smon leap by (simp add: mdays_def feb_leap uint_nat del: of_nat_unat)
  have "rtc_calculate_yday t latest_epoch (if sint (tm_year t) mod 4 = 0 then 1 else 0) =
      Inr (of_nat (cum (if (if sint (tm_year t) mod 4 = 0 then 1 else 0) = (0 :: 16 word)
        then 28 else 29) M + md - 1))"
    using M(1) md by (intro rtc_calculate_yday_char) (simp_all add: t_def)
  also have "(if (if sint (tm_year t) mod 4 = 0 then 1 else 0) = (0 :: 16 word)
        then 28 else 29) = feb"
    unfolding leap by (simp add: feb_leap)
  finally have cy: "rtc_calculate_yday t latest_epoch (if sint (tm_year t) mod 4 = 0 then 1 else 0)
      = Inr (tm_yday t)"
    using md4 by (simp add: t_def)
  have ydb: "int yd \<le> (if sint (tm_year t) mod 4 = 0 then 365 else 364)"
    unfolding leap using yd by (simp add: feb_leap cum_values split: if_splits)
  have wd: "int ((n div 86400 + 4) mod 7) = (uint e div 86400 + 4) mod 7"
    unfolding n_def uint_nat by (simp only: zdiv_int zmod_int of_nat_add of_nat_numeral)
  have ri': "rtc_interpret e timebuf = Inr (TIMEBUF, t)"
    using ri by (simp add: t_def md_def)
  have iso: "tm_isdst t = tm_isdst timebuf" by (simp add: t_def)
  show ?thesis
  proof (intro exI [of _ t] conjI)
    show "rtc_interpret e timebuf = Inr (TIMEBUF, t)" by (rule ri')
    show "1973 \<le> sint (tm_year t)" using yr by (simp add: sy)
    show "0 \<le> sint (tm_mon t)" by (simp add: smon)
    show "sint (tm_mon t) \<le> 11" using M(1) by (simp add: smon)
    show "1 \<le> sint (tm_mday t)" using md12(1) by (simp add: smday)
    show "sint (tm_mday t) \<le> 31" using md3 by (simp add: smday)
    show "sint (tm_mday t) \<le>
      (if tm_mon t = 1 then (if sint (tm_year t) mod 4 = 0 then 29 else 28)
       else uint (days (monthInfo ! unat (tm_mon t))))"
      unfolding dim smday using md12(2) by simp
    show "0 \<le> sint (tm_yday t)" by (simp add: syday)
    show "sint (tm_yday t) \<le> (if sint (tm_year t) mod 4 = 0 then 365 else 364)"
      unfolding syday by (rule ydb)
    show "rtc_calculate_yday t latest_epoch (if sint (tm_year t) mod 4 = 0 then 1 else 0)
      = Inr (tm_yday t)" by (rule cy)
    show "0 \<le> sint (tm_hour t)" by (simp add: shour)
    show "sint (tm_hour t) \<le> 23" using sod by (simp add: shour)
    show "0 \<le> sint (tm_min t)" by (simp add: smin)
    show "sint (tm_min t) \<le> 59" unfolding smin by simp
    show "0 \<le> sint (tm_sec t)" by (simp add: ssec)
    show "sint (tm_sec t) \<le> 59" unfolding ssec by simp
    show "0 \<le> sint (tm_wday t)" by (simp add: swday)
    show "sint (tm_wday t) \<le> 6" unfolding swday by simp
    show "sint (tm_wday t) = (uint e div 86400 + 4) mod 7" unfolding swday by (rule wd)
    show "tm_isdst t = tm_isdst timebuf" by (rule iso)
    show "e < 4107542400 \<longrightarrow>
      sint (tm_mday t) \<le>
        (if tm_mon t = 1 then (if gregorian_leap (sint (tm_year t)) then 29 else 28)
         else uint (days (monthInfo ! unat (tm_mon t)))) \<and>
      sint (tm_yday t) \<le> (if gregorian_leap (sint (tm_year t)) then 365 else 364) \<and>
      rtc_calculate_yday t latest_epoch (if gregorian_leap (sint (tm_year t)) then 1 else 0)
        = Inr (tm_yday t)"
    proof
      assume "e < 4107542400"
      then have lt: "n < 4107542400"
        by (simp add: n_def word_less_nat_alt)
      have k: "cycles_of n \<le> 31"
        using lt by (simp add: cycles_of_def)
      then have y2100: "year_of n \<le> 2100"
        using year_in_cycle_less [of n] by (simp add: year_of_def years_before_def)
      show "sint (tm_mday t) \<le>
        (if tm_mon t = 1 then (if gregorian_leap (sint (tm_year t)) then 29 else 28)
         else uint (days (monthInfo ! unat (tm_mon t)))) \<and>
        sint (tm_yday t) \<le> (if gregorian_leap (sint (tm_year t)) then 365 else 364) \<and>
        rtc_calculate_yday t latest_epoch (if gregorian_leap (sint (tm_year t)) then 1 else 0)
          = Inr (tm_yday t)"
      proof (cases "year_of n = 2100")
        case False
        with y2100 yr(1) have "1973 \<le> sint (tm_year t)" "sint (tm_year t) \<le> 2099"
          by (simp_all add: sy)
        then have g: "gregorian_leap (sint (tm_year t)) = (sint (tm_year t) mod 4 = 0)"
          by (rule gregorian_leap_before_2100)
        show ?thesis
          unfolding g
        proof (intro conjI)
          show "sint (tm_mday t) \<le>
            (if tm_mon t = 1 then (if sint (tm_year t) mod 4 = 0 then 29 else 28)
             else uint (days (monthInfo ! unat (tm_mon t))))"
            unfolding dim smday using md12(2) by simp
          show "sint (tm_yday t) \<le> (if sint (tm_year t) mod 4 = 0 then 365 else 364)"
            unfolding syday by (rule ydb)
          show "rtc_calculate_yday t latest_epoch (if sint (tm_year t) mod 4 = 0 then 1 else 0)
            = Inr (tm_yday t)" by (rule cy)
        qed
      next
        case True
        have g: "gregorian_leap (sint (tm_year t)) = False"
          by (simp add: sy True gregorian_leap_def)
        from True have kr: "4 * cycles_of n + year_in_cycle n = 127"
          by (simp add: year_of_def years_before_def)
        with year_in_cycle_less [of n] have k31: "cycles_of n = 31" and r3: "year_in_cycle n = 3"
          by arith+
        have "secs_in_year n = n - 4102444800"
          using cycle_decomposition [OF n(1)] remains_split [of n] by (simp add: k31 r3)
        then have "secs_in_year n < 5097600"
          using lt n(1) by simp
        then have yd59: "yd < 59"
          by (simp add: yd_def less_mult_imp_div_less)
        have feb29: "feb = 29" by (simp add: feb_leap r3)
        have M01: "M = 0 \<or> M = 1"
          using less_12_cases [OF M(1)] M(2) yd59 by (auto simp: cum_values feb29)
        have c28: "cum 28 M = cum feb M"
          using M01 cum_1 [of 28] cum_1 [of feb] by (auto simp: cum.simps)
        have md28: "M = 1 \<Longrightarrow> md \<le> 28"
          using yd59 cum_1 [of feb] by (simp add: md_def)
        show ?thesis
          unfolding g
        proof (intro conjI)
          show "sint (tm_mday t) \<le>
            (if tm_mon t = 1 then (if False then 29 else 28)
             else uint (days (monthInfo ! unat (tm_mon t))))"
            unfolding smon smday using M01 md28 md3 by (auto simp: monthInfo_def)
          show "sint (tm_yday t) \<le> (if False then 365 else 364)"
            unfolding syday using yd59 by simp
          have "rtc_calculate_yday t latest_epoch 0 =
              Inr (of_nat (cum (if (0 :: 16 word) = 0 then 28 else 29) M + md - 1))"
            using M(1) md by (intro rtc_calculate_yday_char) (simp_all add: t_def)
          then show "rtc_calculate_yday t latest_epoch (if False then 1 else 0) = Inr (tm_yday t)"
            using md4 by (simp add: c28 t_def)
        qed
      qed
    qed
  qed
qed
theorem rtc_interpret_fields_in_range_witness:
  "EPOCH_AFTER_FIRST_LEAPYEAR \<le> 1000000000 \<and> (1000000000 :: 32 word) < 4107542400 \<and>
   (\<exists>t. rtc_interpret 1000000000 timebuf_zero = Inr (TIMEBUF, t) \<and>
      0 \<le> sint (tm_mon t) \<and> sint (tm_mon t) \<le> 11 \<and>
      1 \<le> sint (tm_mday t) \<and> sint (tm_mday t) \<le> 31 \<and>
      0 \<le> sint (tm_yday t) \<and> sint (tm_yday t) \<le> 365 \<and>
      sint (tm_hour t) \<le> 23 \<and> sint (tm_min t) \<le> 59 \<and> sint (tm_sec t) \<le> 59 \<and>
      sint (tm_wday t) = 0 \<and>
      rtc_calculate_yday t 0 (if gregorian_leap (sint (tm_year t)) then 1 else 0)
        = Inr (tm_yday t))"
proof -
  have h: "EPOCH_AFTER_FIRST_LEAPYEAR \<le> 1000000000"
    by (simp add: EPOCH_AFTER_FIRST_LEAPYEAR_value)
  have l: "(1000000000 :: 32 word) < 4107542400" by simp
  from rtc_interpret_fields_in_range [OF h, of timebuf_zero 0] l obtain t where
    "rtc_interpret 1000000000 timebuf_zero = Inr (TIMEBUF, t)"
    "0 \<le> sint (tm_mon t)" "sint (tm_mon t) \<le> 11"
    "1 \<le> sint (tm_mday t)" "sint (tm_mday t) \<le> 31"
    "0 \<le> sint (tm_yday t)"
    "sint (tm_yday t) \<le> (if sint (tm_year t) mod 4 = 0 then 365 else 364)"
    "sint (tm_hour t) \<le> 23" "sint (tm_min t) \<le> 59" "sint (tm_sec t) \<le> 59"
    "sint (tm_wday t) = (uint (1000000000 :: 32 word) div 86400 + 4) mod 7"
    "rtc_calculate_yday t 0 (if gregorian_leap (sint (tm_year t)) then 1 else 0)
      = Inr (tm_yday t)"
    by blast
  moreover have "(uint (1000000000 :: 32 word) div 86400 + 4) mod 7 = 0" by simp
  moreover have "(if sint (tm_year t) mod 4 = 0 then 365 else 364) \<le> (365 :: int)" by simp
  ultimately show ?thesis
    using h l by (intro conjI exI [of _ t]) (auto split: if_splits)
qed

text \<open>
  The claim as it is written fails from 2100-03-01T00:00:00Z on, 130 years, 32 leap days,
  January and 28 days of February after the epoch origin: the library counts 2100 as a leap
  year and returns February 29, 2100.
\<close>

theorem rtc_interpret_2100_counterexample:
  "(4107542400 :: 32 word) = (130 * 365 + 32 + 31 + 28) * 86400 \<and>
   EPOCH_AFTER_FIRST_LEAPYEAR \<le> 4107542400 \<and>
   rtc_interpret 4107542400 timebuf_zero = Inr (TIMEBUF, tm_2100_feb_29) \<and>
   tm_mon tm_2100_feb_29 = 1 \<and> sint (tm_mday tm_2100_feb_29) = 29 \<and>
   sint (tm_year tm_2100_feb_29) = 2100 \<and> \<not> gregorian_leap 2100"
  by (simp add: rtc_interpret_def rtc_calculate_last_leapyear_def EPOCH_AFTER_FIRST_LEAPYEAR_def
      TOTAL_SECONDS_PER_LEAP_CYCLE_def last_leapyear_loop.simps month_loop.simps
      monthInfo_days_def monthInfo_def c_sdiv_def c_smod_def Let_def word_sless_alt
      tm_2100_feb_29_def timebuf_zero_def gregorian_leap_def)

text \<open>
  Claim C6, amended.  \<^verbatim>\<open>rtc_interpret(0)\<close> and \<^verbatim>\<open>rtc_interpret(86400)\<close> return \<^verbatim>\<open>NULL\<close> and
  leave the buffer as it was: both epochs lie before 1973, and the day of the week is
  computed only after the leap-cycle decomposition has succeeded.  For every epoch from
  \<^verbatim>\<open>EPOCH_AFTER_FIRST_LEAPYEAR\<close> on, the day of the week returned is
  \<open>(epoch div 86400 + 4) mod 7\<close>: the days are counted from 1970-01-01 as a Thursday (4).
\<close>

theorem rtc_interpret_weekday:
  "rtc_interpret 0 timebuf = Inr (NULL, timebuf) \<and>
   rtc_interpret 86400 timebuf = Inr (NULL, timebuf) \<and>
   (EPOCH_AFTER_FIRST_LEAPYEAR \<le> e \<longrightarrow>
     (\<exists>t. rtc_interpret e timebuf = Inr (TIMEBUF, t) \<and>
       sint (tm_wday t) = (uint e div 86400 + 4) mod 7))"
proof (intro conjI impI)
  show "rtc_interpret 0 timebuf = Inr (NULL, timebuf)"
    by (simp add: rtc_interpret_def rtc_calculate_last_leapyear_def EPOCH_AFTER_FIRST_LEAPYEAR_value)
  show "rtc_interpret 86400 timebuf = Inr (NULL, timebuf)"
    by (simp add: rtc_interpret_def rtc_calculate_last_leapyear_def EPOCH_AFTER_FIRST_LEAPYEAR_value)
  assume "EPOCH_AFTER_FIRST_LEAPYEAR \<le> e"
  then show "\<exists>t. rtc_interpret e timebuf = Inr (TIMEBUF, t) \<and>
       sint (tm_wday t) = (uint e div 86400 + 4) mod 7"
    by (rule rtc_interpret_wday)
qed

text \<open>1973-01-04, a whole number of weeks after 1970-01-01, is a Thursday.\<close>

theorem rtc_interpret_weekday_witness:
  "EPOCH_AFTER_FIRST_LEAPYEAR \<le> 94694400 + 3 * 86400 \<and>
   (\<exists>t. rtc_interpret (94694400 + 3 * 86400) timebuf_zero = Inr (TIMEBUF, t) \<and>
      sint (tm_wday t) = 4)"
  using rtc_interpret_weekday [of timebuf_zero "94694400 + 3 * 86400"]
  by (simp add: EPOCH_AFTER_FIRST_LEAPYEAR_value)

text \<open>The claim as it is written fails at both of its epochs: no calendar value is returned.\<close>

theorem rtc_interpret_origin_counterexample:
  "rtc_interpret 0 timebuf_zero = Inr (NULL, timebuf_zero) \<and>
   rtc_interpret 86400 timebuf_zero = Inr (NULL, timebuf_zero)"
  by (simp add: rtc_interpret_def rtc_calculate_last_leapyear_def EPOCH_AFTER_FIRST_LEAPYEAR_value)

text \<open>
  Claim C10, amended.  A call of \<^verbatim>\<open>rtc_epoch\<close> that returns changes no field of its input
  other than \<^verbatim>\<open>tm_yday\<close>.  When \<^verbatim>\<open>tm_year\<close> is below 1973 it changes nothing.  Otherwise,
  when \<^verbatim>\<open>tm_yday\<close> exceeds 366 or is 0, and \<^verbatim>\<open>tm_mday\<close> or \<^verbatim>\<open>tm_mon\<close> is positive, \<^verbatim>\<open>tm_yday\<close>
  becomes the value that \<^verbatim>\<open>rtc_calculate_yday\<close> computes from the month and the day; when
  \<^verbatim>\<open>tm_yday\<close> exceeds 366 and neither is positive it becomes 0; in every other case it keeps
  its value.  The call returns whenever \<^verbatim>\<open>tm_mon\<close>, read as unsigned, is at most 12, so that
  the month loop stays inside the table.
\<close>

theorem rtc_epoch_writes_only_tm_yday:
  "(unat (tm_mon t) \<le> 12 \<longrightarrow> (\<exists>e t'. rtc_epoch (Some t) = Inr (e, Some t'))) \<and>
   (rtc_epoch (Some t) = Inr (e, p) \<longrightarrow>
     (\<exists>y. p = Some (t\<lparr>tm_yday := y\<rparr>) \<and>
       (if tm_year t <s 1973 then y = tm_yday t
        else if (366 <s tm_yday t \<or> tm_yday t = 0) \<and> (0 <s tm_mday t \<or> 0 <s tm_mon t)
          then rtc_calculate_yday t latest_epoch (rtc_epoch_is_leap (tm_year t)) = Inr y
        else if 366 <s tm_yday t then y = 0 else y = tm_yday t)))"
proof (intro conjI impI)
  assume m: "unat (tm_mon t) \<le> 12"
  obtain E1 L1 where c1: "epoch_cycle_loop (tm_year t) EPOCH_AFTER_FIRST_LEAPYEAR 1973 = (E1, L1)"
    by (cases "epoch_cycle_loop (tm_year t) EPOCH_AFTER_FIRST_LEAPYEAR 1973") blast
  obtain E2 L2 where c2: "epoch_year_loop (tm_year t) E1 L1 = (E2, L2)"
    by (cases "epoch_year_loop (tm_year t) E1 L1") blast
  obtain y where y: "rtc_calculate_yday t E2 (if 2 < tm_year t - L1 then 1 else 0) = Inr y"
    using rtc_calculate_yday_returns [OF m] by blast
  have y': "rtc_calculate_yday (t\<lparr>tm_yday := 0\<rparr>) E2 (if 2 < tm_year t - L1 then 1 else 0) = Inr y"
    using y by (simp only: rtc_calculate_yday_indep [where ep' = E2])
  show "\<exists>e t'. rtc_epoch (Some t) = Inr (e, Some t')"
    unfolding rtc_epoch_def Let_def
    by (simp add: c1 c2 y y')
next
  assume r: "rtc_epoch (Some t) = Inr (e, p)"
  show "\<exists>y. p = Some (t\<lparr>tm_yday := y\<rparr>) \<and>
       (if tm_year t <s 1973 then y = tm_yday t
        else if (366 <s tm_yday t \<or> tm_yday t = 0) \<and> (0 <s tm_mday t \<or> 0 <s tm_mon t)
          then rtc_calculate_yday t latest_epoch (rtc_epoch_is_leap (tm_year t)) = Inr y
        else if 366 <s tm_yday t then y = 0 else y = tm_yday t)"
  proof (cases "tm_year t <s 1973")
    case True
    with r have "p = Some t" by (simp add: rtc_epoch_def)
    then have "p = Some (t\<lparr>tm_yday := tm_yday t\<rparr>)" by simp
    with True show ?thesis by (intro exI [of _ "tm_yday t"]) simp
  next
    case False
    obtain E1 L1 where c1: "epoch_cycle_loop (tm_year t) EPOCH_AFTER_FIRST_LEAPYEAR 1973 = (E1, L1)"
      by (cases "epoch_cycle_loop (tm_year t) EPOCH_AFTER_FIRST_LEAPYEAR 1973") blast
    obtain E2 L2 where c2: "epoch_year_loop (tm_year t) E1 L1 = (E2, L2)"
      by (cases "epoch_year_loop (tm_year t) E1 L1") blast
    have il: "rtc_epoch_is_leap (tm_year t) = (if 2 < tm_year t - L1 then 1 else 0)"
      by (simp add: rtc_epoch_is_leap_def c1)
    have e1: "rtc_calculate_yday t E2 (if 2 < tm_year t - L1 then 1 else 0) =
        rtc_calculate_yday t latest_epoch (rtc_epoch_is_leap (tm_year t))"
      unfolding il by (simp add: rtc_calculate_yday_def)
    have e2: "rtc_calculate_yday (t\<lparr>tm_yday := 0\<rparr>) E2 (if 2 < tm_year t - L1 then 1 else 0) =
        rtc_calculate_yday t latest_epoch (rtc_epoch_is_leap (tm_year t))"
      unfolding il by (rule rtc_calculate_yday_indep)
    show ?thesis
    proof (cases "(366 <s tm_yday t \<or> tm_yday t = 0) \<and> (0 <s tm_mday t \<or> 0 <s tm_mon t)")
      case w: True
      show ?thesis
      proof (cases "rtc_calculate_yday t latest_epoch (rtc_epoch_is_leap (tm_year t))")
        case (Inl f)
        then have "rtc_calculate_yday t E2 (if 2 < tm_year t - L1 then 1 else 0) = Inl f"
          "rtc_calculate_yday (t\<lparr>tm_yday := 0\<rparr>) E2 (if 2 < tm_year t - L1 then 1 else 0) = Inl f"
          unfolding e1 e2 by simp_all
        with w False have "rtc_epoch (Some t) = Inl f"
          unfolding rtc_epoch_def Let_def by (auto simp: c1 c2)
        with r show ?thesis by simp
      next
        case (Inr y)
        then have "rtc_calculate_yday t E2 (if 2 < tm_year t - L1 then 1 else 0) = Inr y"
          "rtc_calculate_yday (t\<lparr>tm_yday := 0\<rparr>) E2 (if 2 < tm_year t - L1 then 1 else 0) = Inr y"
          unfolding e1 e2 by simp_all
        with w False have "\<exists>e'. rtc_epoch (Some t) = Inr (e', Some (t\<lparr>tm_yday := y\<rparr>))"
          unfolding rtc_epoch_def Let_def by (auto simp: c1 c2)
        with r have "p = Some (t\<lparr>tm_yday := y\<rparr>)" by auto
        with w False Inr show ?thesis by (intro exI [of _ y]) auto
      qed
    next
      case nw: False
      show ?thesis
      proof (cases "366 <s tm_yday t")
        case True
        with nw False have "\<exists>e'. rtc_epoch (Some t) = Inr (e', Some (t\<lparr>tm_yday := 0\<rparr>))"
          unfolding rtc_epoch_def Let_def by (auto simp: c1 c2)
        with r have "p = Some (t\<lparr>tm_yday := 0\<rparr>)" by auto
        with nw False True show ?thesis by (intro exI [of _ 0]) auto
      next
        case ny: False
        with nw False have "\<exists>e'. rtc_epoch (Some t) = Inr (e', Some t)"
          unfolding rtc_epoch_def Let_def by (auto simp: c1 c2)
        with r have "p = Some (t\<lparr>tm_yday := tm_yday t\<rparr>)" by auto
        with nw False ny show ?thesis by (intro exI [of _ "tm_yday t"]) auto
      qed
    qed
  qed
qed

theorem rtc_epoch_writes_only_tm_yday_witness:
  "unat (tm_mon tm_1980_march_1) \<le> 12 \<and>
   rtc_epoch (Some tm_1980_march_1) = Inr (320716800, Some (tm_1980_march_1\<lparr>tm_yday := 60\<rparr>)) \<and>
   \<not> tm_year tm_1980_march_1 <s 1973 \<and> 366 <s tm_yday tm_1980_march_1 \<and>
   0 <s tm_mday tm_1980_march_1 \<and>
   rtc_calculate_yday tm_1980_march_1 0 (rtc_epoch_is_leap (tm_year tm_1980_march_1)) = Inr 60"
proof -
  have r: "rtc_epoch (Some tm_1980_march_1) =
      Inr (320716800, Some (tm_1980_march_1\<lparr>tm_yday := 60\<rparr>))"
    by (simp add: tm_1980_march_1_def timebuf_zero_def rtc_epoch_def
      rtc_calculate_yday_def Let_def word_sless_alt EPOCH_AFTER_FIRST_LEAPYEAR_def
      TOTAL_SECONDS_PER_LEAP_CYCLE_def
      epoch_cycle_loop.simps epoch_year_loop.simps yday_loop.simps monthInfo_days_def monthInfo_def)
  have c: "\<not> tm_year tm_1980_march_1 <s 1973" "366 <s tm_yday tm_1980_march_1"
    "0 <s tm_mday tm_1980_march_1" "unat (tm_mon tm_1980_march_1) \<le> 12"
    by (simp_all add: tm_1980_march_1_def timebuf_zero_def word_sless_alt)
  from rtc_epoch_writes_only_tm_yday [of tm_1980_march_1 320716800 "Some (tm_1980_march_1\<lparr>tm_yday := 60\<rparr>)" 0] r c
  obtain y where "tm_1980_march_1\<lparr>tm_yday := 60\<rparr> = tm_1980_march_1\<lparr>tm_yday := y\<rparr>"
    "rtc_calculate_yday tm_1980_march_1 0 (rtc_epoch_is_leap (tm_year tm_1980_march_1)) = Inr y"
    by auto
  moreover from this(1) have "y = 60"
    by (metis tm.select_convs(8) tm.surjective tm.update_convs(8))
  ultimately show ?thesis using r c by simp
qed
text \<open>
  The claim as it is written fails on two inputs.  With \<^verbatim>\<open>tm_year = 1972\<close> and
  \<^verbatim>\<open>tm_yday = 400\<close> the call returns 0 before it looks at \<^verbatim>\<open>tm_yday\<close>, which stays 400.  With
  \<^verbatim>\<open>tm_year = 1973\<close>, \<^verbatim>\<open>tm_yday = 0\<close> and \<^verbatim>\<open>tm_mon = -1\<close> (nonzero, not positive) the day of
  the year is not recomputed: the recomputation would read outside the month table.
\<close>

theorem rtc_epoch_leaves_tm_yday_counterexample:
  "366 <s tm_yday tm_1972_yday_400 \<and>
   rtc_epoch (Some tm_1972_yday_400) = Inr (0, Some tm_1972_yday_400) \<and>
   tm_yday tm_1972_yday_400 = 400 \<and>
   tm_yday tm_1973_month_minus_1 = 0 \<and> sint (tm_mon tm_1973_month_minus_1) = - 1 \<and>
   rtc_epoch (Some tm_1973_month_minus_1) = Inr (94694400, Some tm_1973_month_minus_1) \<and>
   rtc_calculate_yday tm_1973_month_minus_1 94694400 0 = Inl OutOfBounds"
  by (simp add: tm_1972_yday_400_def tm_1973_month_minus_1_def timebuf_zero_def rtc_epoch_def
      rtc_calculate_yday_def Let_def word_sless_alt EPOCH_AFTER_FIRST_LEAPYEAR_def
      epoch_cycle_loop.simps epoch_year_loop.simps yday_loop.simps monthInfo_days_def monthInfo_def)

end
